theory Spec2Isabelle
  imports Complex_Main "HOL-Library.Word"
begin

section \<open>Values of the C program\<close>

subsection \<open>Simulated time: \<^verbatim>\<open>double\<close>\<close>

text \<open>
  Every time value of \<^verbatim>\<open>t/simulator.c\<close> is a C \<^verbatim>\<open>double\<close>. The model keeps the two
  kinds of value the simulator itself produces: finite numbers and \<^verbatim>\<open>INFINITY\<close>.
  Signed zeros, NaN and negative infinity are not modelled: an operation whose IEEE
  result would be NaN or negative infinity, and every division by a zero divisor, has no
  result in the model and the function that performs it returns an error.

  The operations \<open>dadd\<close>, \<open>ddiv\<close> and \<open>dmul\<close> of this subsection compute with exact
  reals, without the rounding of the machine. The functions built on them are used for
  the properties that do not depend on what the sum or the quotient is, or that rounding
  preserves. The rounding operations of binary64 are defined in their own subsection
  below, and the functions of the queue that compute times are given a second time with
  the arithmetic as a parameter, for the property that rounding decides.
\<close>

datatype double = Finite real | PInf

instantiation double :: linorder
begin

fun less_eq_double :: "double \<Rightarrow> double \<Rightarrow> bool" where
  "less_eq_double (Finite x) (Finite y) = (x \<le> y)"
| "less_eq_double PInf (Finite y) = False"
| "less_eq_double a PInf = True"

definition less_double :: "double \<Rightarrow> double \<Rightarrow> bool" where
  "less_double a b = (a \<le> b \<and> \<not> b \<le> a)"

instance
proof
  fix a b c :: double
  show "(a < b) = (a \<le> b \<and> \<not> b \<le> a)"
    by (simp add: less_double_def)
  show "a \<le> a"
    by (cases a) simp_all
  show "a \<le> b \<Longrightarrow> b \<le> c \<Longrightarrow> a \<le> c"
    by (cases a; cases b; cases c) simp_all
  show "a \<le> b \<Longrightarrow> b \<le> a \<Longrightarrow> a = b"
    by (cases a; cases b) simp_all
  show "a \<le> b \<or> b \<le> a"
    by (cases a; cases b) auto
qed

end

text \<open>\<^verbatim>\<open>isinf(x)\<close>.\<close>

fun isinf :: "double \<Rightarrow> bool" where
  "isinf PInf = True"
| "isinf (Finite x) = False"

text \<open>\<^verbatim>\<open>a + b\<close> on doubles.\<close>

fun dadd :: "double \<Rightarrow> double \<Rightarrow> double" where
  "dadd (Finite x) (Finite y) = Finite (x + y)"
| "dadd PInf b = PInf"
| "dadd a PInf = PInf"

text \<open>
  \<^verbatim>\<open>a / b\<close> on doubles. Division by zero is undefined behaviour in C (and gives an
  infinity or NaN whose sign depends on the sign of the zero under IEEE 754);
  \<open>inf / inf\<close> is NaN and \<open>inf / negative\<close> is negative infinity.
\<close>

fun ddiv :: "double \<Rightarrow> double \<Rightarrow> double option" where
  "ddiv (Finite x) (Finite y) = (if y = 0 then None else Some (Finite (x / y)))"
| "ddiv (Finite x) PInf = Some (Finite 0)"
| "ddiv PInf (Finite y) = (if 0 < y then Some PInf else None)"
| "ddiv PInf PInf = None"

text \<open>\<^verbatim>\<open>a * b\<close> on doubles; \<open>inf * 0\<close> is NaN and \<open>inf * negative\<close> is negative infinity.\<close>

fun dmul :: "double \<Rightarrow> double \<Rightarrow> double option" where
  "dmul (Finite x) (Finite y) = Some (Finite (x * y))"
| "dmul (Finite x) PInf = (if 0 < x then Some PInf else None)"
| "dmul PInf (Finite y) = (if 0 < y then Some PInf else None)"
| "dmul PInf PInf = Some PInf"

subsection \<open>\<^verbatim>\<open>size_t\<close> and its conversions\<close>

text \<open>\<^verbatim>\<open>size_t\<close> is an unsigned 64-bit integer; \<open>+\<close> and \<open>-\<close> wrap around.\<close>

type_synonym size_t = "64 word"

text \<open>\<^verbatim>\<open>(double)n\<close> for a \<^verbatim>\<open>size_t\<close>.\<close>

definition double_of_size :: "size_t \<Rightarrow> double" where
  "double_of_size n = Finite (real (unat n))"

text \<open>
  \<^verbatim>\<open>(size_t)x\<close> for a double: the value is truncated towards zero; the conversion is
  undefined when the truncated value is not representable.
\<close>

fun size_of_double :: "double \<Rightarrow> size_t option" where
  "size_of_double (Finite x) =
     (if - 1 < x \<and> x < 2 ^ 64 then Some (word_of_nat (nat \<lfloor>x\<rfloor>)) else None)"
| "size_of_double PInf = None"

subsection \<open>Errors and the event log\<close>

text \<open>
  The ways a call can fail to return: a failed \<^verbatim>\<open>assert\<close>, a division by zero, an
  undefined conversion, a dereference of \<^verbatim>\<open>NULL\<close>. \<open>OutsideModel\<close> is not a failure of
  the program: it marks a rounded result (negative infinity, NaN) that the type \<open>double\<close>
  of this theory does not contain.
\<close>

datatype error =
  AssertionFailed | DivisionByZero | ConversionUndefined | NullDereference | OutsideModel

text \<open>
  The lines the queue prints: \<^verbatim>\<open>drop\<close>, \<^verbatim>\<open>enqueue\<close> and \<^verbatim>\<open>shift\<close>, each with the clock
  and the queue's byte count.
\<close>

datatype log_event = Drop double size_t | Enqueue double size_t | Shift double size_t

subsection \<open>Binary64 arithmetic\<close>

text \<open>
  A \<^verbatim>\<open>double\<close> is an IEEE 754 binary64 number: the result of \<^verbatim>\<open>+\<close> or \<^verbatim>\<open>/\<close> is
  the exact result rounded to the nearest number with a significand of 53 bits, to the
  one with an even significand when two are equally near. Numbers below \<open>2 ^ - 1022\<close>
  are multiples of \<open>2 ^ - 1074\<close>; a rounded magnitude of \<open>2 ^ 1024\<close> or more is infinity.
\<close>

text \<open>The number of binary digits of a natural number.\<close>

function bit_length :: "nat \<Rightarrow> nat" where
  "bit_length n = (if n = 0 then 0 else bit_length (n div 2) + 1)"
  by pat_completeness auto
termination
  by (relation "measure (\<lambda>n. n)") auto

declare bit_length.simps [simp del]

text \<open>\<open>2\<close> to an integer power.\<close>

definition pow2 :: "int \<Rightarrow> real" where
  "pow2 k = (if 0 \<le> k then 2 ^ nat k else 1 / 2 ^ nat (- k))"

text \<open>The nearest integer, the even one of two equally near.\<close>

definition round_even :: "real \<Rightarrow> int" where
  "round_even y =
     (let f = \<lfloor>y\<rfloor>; r = y - of_int f
      in if r < 1 / 2 then f else if 1 / 2 < r then f + 1 else if even f then f else f + 1)"

text \<open>
  The exponent of the last significand bit of the binary64 numbers around a magnitude
  \<open>a\<close>: with \<open>2 ^ e \<le> a < 2 ^ (e + 1)\<close> it is \<open>e - 52\<close>, and \<open>- 1074\<close> at least.
  (\<open>a * 2 ^ 1074\<close> has \<open>e + 1075\<close> binary digits before the point.)
\<close>

definition b64_quantum :: "real \<Rightarrow> int" where
  "b64_quantum a = max (int (bit_length (nat \<lfloor>a * 2 ^ 1074\<rfloor>)) - 1127) (- 1074)"

text \<open>The binary64 number nearest to a magnitude \<open>a \<ge> 0\<close>.\<close>

definition round64_abs :: "real \<Rightarrow> double" where
  "round64_abs a =
     (let q = pow2 (b64_quantum a); r = of_int (round_even (a / q)) * q
      in if 2 ^ 1024 \<le> r then PInf else Finite r)"

text \<open>The binary64 number nearest to a real; rounding is symmetric about 0.\<close>

definition round64 :: "real \<Rightarrow> error + double" where
  "round64 x =
     (if 0 \<le> x then Inr (round64_abs x)
      else (case round64_abs (- x) of
              Finite r \<Rightarrow> Inr (Finite (- r))
            | PInf \<Rightarrow> Inl OutsideModel))"

text \<open>\<^verbatim>\<open>a + b\<close>, \<^verbatim>\<open>a / b\<close> and \<^verbatim>\<open>(double)n\<close> in binary64.\<close>

fun b64_add :: "double \<Rightarrow> double \<Rightarrow> error + double" where
  "b64_add (Finite x) (Finite y) = round64 (x + y)"
| "b64_add PInf b = Inr PInf"
| "b64_add a PInf = Inr PInf"

fun b64_div :: "double \<Rightarrow> double \<Rightarrow> error + double" where
  "b64_div (Finite x) (Finite y) = (if y = 0 then Inl DivisionByZero else round64 (x / y))"
| "b64_div (Finite x) PInf = Inr (Finite 0)"
| "b64_div PInf (Finite y) =
     (if 0 < y then Inr PInf else if y = 0 then Inl DivisionByZero else Inl OutsideModel)"
| "b64_div PInf PInf = Inl OutsideModel"

definition b64_of_size :: "size_t \<Rightarrow> double" where
  "b64_of_size n = round64_abs (real (unat n))"

text \<open>
  The arithmetic of the queue's time computations, as a parameter: the sum and the
  quotient of two doubles, and the conversion of a \<^verbatim>\<open>size_t\<close>.
\<close>

record double_ops =
  op_add :: "double \<Rightarrow> double \<Rightarrow> error + double"
  op_div :: "double \<Rightarrow> double \<Rightarrow> error + double"
  op_of_size :: "size_t \<Rightarrow> double"

text \<open>The arithmetic of the machine.\<close>

definition binary64 :: double_ops where
  "binary64 = \<lparr>op_add = b64_add, op_div = b64_div, op_of_size = b64_of_size\<rparr>"

text \<open>The arithmetic without rounding, of \<open>dadd\<close> and \<open>ddiv\<close>.\<close>

definition exact_reals :: double_ops where
  "exact_reals =
     \<lparr>op_add = (\<lambda>a b. Inr (dadd a b)),
      op_div = (\<lambda>a b. case ddiv a b of None \<Rightarrow> Inl DivisionByZero | Some d \<Rightarrow> Inr d),
      op_of_size = double_of_size\<rparr>"

section \<open>Packets\<close>

text \<open>
  \<^verbatim>\<open>quicly_address_t\<close>, as far as \<^verbatim>\<open>new_address\<close> fills it in: family, IPv4 address
  and port.
\<close>

record quicly_address_t =
  sin_family :: nat
  sin_addr :: "32 word"
  sin_port :: "16 word"

text \<open>
  \<^verbatim>\<open>struct net_packet\<close>. The \<^verbatim>\<open>next\<close> pointer is not a field: a chain of packets
  linked through \<^verbatim>\<open>next\<close> is a list of packets.
\<close>

record net_packet =
  dest :: quicly_address_t
  src :: quicly_address_t
  enter_at :: double
  size_p :: size_t
  bytes :: "8 word list"

text \<open>\<^verbatim>\<open>net_packet_create\<close>: the packet is stamped with the clock and copies the bytes.\<close>

definition net_packet_create ::
    "quicly_address_t \<Rightarrow> quicly_address_t \<Rightarrow> 8 word list \<Rightarrow> double \<Rightarrow> net_packet" where
  "net_packet_create d s vec now =
     \<lparr>dest = d, src = s, enter_at = now, size_p = word_of_nat (length vec), bytes = vec\<rparr>"

section \<open>The bottleneck queue\<close>

text \<open>
  \<^verbatim>\<open>struct net_queue\<close>. \<open>queue_first\<close> is the chain that starts at \<^verbatim>\<open>queue.first\<close>;
  \<^verbatim>\<open>queue.append_at\<close> points at its end. The node downstream (\<^verbatim>\<open>next_node\<close>) is
  not a field: \<open>net_queue_run\<close> returns the packet it hands over, and the caller
  passes it on.
\<close>

record net_queue =
  queue_first :: "net_packet list"
  next_emit_at :: double
  prop_delay :: double
  bytes_per_sec :: double
  size_q :: size_t
  capacity :: size_t

text \<open>\<^verbatim>\<open>net_queue_forward\<close>, at clock \<open>now\<close>. The dropped packet is freed: it is in no state.\<close>

definition net_queue_forward ::
    "net_queue \<Rightarrow> net_packet \<Rightarrow> double \<Rightarrow> net_queue \<times> log_event" where
  "net_queue_forward queue packet now =
     (if size_q queue + size_p packet > capacity queue
      then (queue, Drop now (size_q queue))
      else (queue\<lparr>queue_first := queue_first queue @ [packet\<lparr>enter_at := now\<rparr>],
                  size_q := size_q queue + size_p packet\<rparr>,
            Enqueue now (size_q queue)))"

text \<open>\<^verbatim>\<open>net_queue_next_run_at\<close>.\<close>

definition net_queue_next_run_at :: "net_queue \<Rightarrow> double" where
  "net_queue_next_run_at queue =
     (case queue_first queue of
        [] \<Rightarrow> PInf
      | first # rest \<Rightarrow>
          (let emit_at = dadd (enter_at first) (prop_delay queue)
           in if emit_at < next_emit_at queue then next_emit_at queue else emit_at))"

text \<open>
  \<^verbatim>\<open>net_queue_run\<close>, at clock \<open>now\<close>. The result is the queue, the packet handed to
  the next node (if any) and the line printed after the hand-over.
\<close>

definition net_queue_run ::
    "net_queue \<Rightarrow> double \<Rightarrow> error + (net_queue \<times> net_packet option \<times> log_event option)" where
  "net_queue_run queue now =
     (if net_queue_next_run_at queue > now then Inr (queue, None, None)
      else case queue_first queue of
        [] \<Rightarrow> Inl NullDereference
      | packet # rest \<Rightarrow>
          (case ddiv (double_of_size (size_p packet)) (bytes_per_sec queue) of
             None \<Rightarrow> Inl DivisionByZero
           | Some d \<Rightarrow>
               Inr (queue\<lparr>queue_first := rest,
                          size_q := size_q queue - size_p packet,
                          next_emit_at := dadd now d\<rparr>,
                    Some packet,
                    Some (Shift now (size_q queue - size_p packet)))))"

text \<open>\<^verbatim>\<open>net_queue_init\<close>: every field not named in the initialiser is zero.\<close>

definition net_queue_init :: "double \<Rightarrow> double \<Rightarrow> double \<Rightarrow> error + net_queue" where
  "net_queue_init prop_delay' bytes_per_sec' capacity_in_sec =
     (case dmul bytes_per_sec' capacity_in_sec of
        None \<Rightarrow> Inl ConversionUndefined
      | Some c \<Rightarrow>
          (case size_of_double c of
             None \<Rightarrow> Inl ConversionUndefined
           | Some cap \<Rightarrow>
               Inr \<lparr>queue_first = [], next_emit_at = Finite 0, prop_delay = prop_delay',
                    bytes_per_sec = bytes_per_sec', size_q = 0, capacity = cap\<rparr>))"

text \<open>
  A run of \<^verbatim>\<open>net_queue_forward\<close> calls, each at its own clock value: what a sequence of
  enqueue operations does to the queue.
\<close>

fun net_queue_forward_seq :: "net_queue \<Rightarrow> (net_packet \<times> double) list \<Rightarrow> net_queue" where
  "net_queue_forward_seq queue [] = queue"
| "net_queue_forward_seq queue ((packet, now) # rest) =
     net_queue_forward_seq (fst (net_queue_forward queue packet now)) rest"

subsection \<open>The chain of packets in memory\<close>

text \<open>
  In the C code the queued packets are linked through their \<^verbatim>\<open>next\<close> fields, and
  \<^verbatim>\<open>queue.append_at\<close> is a pointer to the pointer that ends the chain. The definitions of
  this subsection keep that representation, so that the list \<open>queue_first\<close> of the model
  above can be compared with it. A \<^verbatim>\<open>struct net_packet *\<close> is an address, \<open>None\<close> for
  \<^verbatim>\<open>NULL\<close>.
\<close>

type_synonym packet_ptr = nat

text \<open>
  The \<^verbatim>\<open>next\<close> fields of the allocated packets: \<open>heap p = Some nx\<close> when \<open>p\<close> is
  allocated and \<^verbatim>\<open>p->next\<close> is \<open>nx\<close>; \<open>heap p = None\<close> when \<open>p\<close> is not allocated.
\<close>

type_synonym next_heap = "packet_ptr \<Rightarrow> packet_ptr option option"

text \<open>
  Where a \<^verbatim>\<open>struct net_packet **\<close> of the queue points: at \<^verbatim>\<open>queue.first\<close>, or at the
  \<^verbatim>\<open>next\<close> field of a packet.
\<close>

datatype append_ptr = AtFirst | AtNext packet_ptr

text \<open>The member \<^verbatim>\<open>queue\<close> of \<^verbatim>\<open>struct net_queue\<close>.\<close>

record packet_chain =
  first :: "packet_ptr option"
  append_at :: append_ptr

text \<open>As \<^verbatim>\<open>net_queue_init\<close> leaves it: \<^verbatim>\<open>.append_at = &queue->queue.first\<close>.\<close>

definition chain_init :: packet_chain where
  "chain_init = \<lparr>first = None, append_at = AtFirst\<rparr>"

text \<open>An access through \<^verbatim>\<open>NULL\<close>, or to a packet that is not allocated.\<close>

datatype chain_error = NullPointer | DanglingPointer

text \<open>
  The two assignments of \<^verbatim>\<open>net_queue_forward\<close>:
  \<^verbatim>\<open>*queue->queue.append_at = packet; queue->queue.append_at = &packet->next;\<close>
\<close>

definition chain_append ::
    "next_heap \<Rightarrow> packet_chain \<Rightarrow> packet_ptr \<Rightarrow> chain_error + (next_heap \<times> packet_chain)" where
  "chain_append heap chain packet =
     (case append_at chain of
        AtFirst \<Rightarrow> Inr (heap, chain\<lparr>first := Some packet, append_at := AtNext packet\<rparr>)
      | AtNext last_packet \<Rightarrow>
          (case heap last_packet of
             None \<Rightarrow> Inl DanglingPointer
           | Some nx \<Rightarrow>
               Inr (heap(last_packet := Some (Some packet)),
                    chain\<lparr>append_at := AtNext packet\<rparr>)))"

text \<open>
  The detachment in \<^verbatim>\<open>net_queue_run\<close>:
  \<^verbatim>\<open>packet = queue->queue.first;
  if ((queue->queue.first = packet->next) == NULL) queue->queue.append_at = &queue->queue.first;\<close>
  The \<^verbatim>\<open>next\<close> field of the detached packet is left as it is.
\<close>

definition chain_detach ::
    "next_heap \<Rightarrow> packet_chain \<Rightarrow> chain_error + (packet_chain \<times> packet_ptr)" where
  "chain_detach heap chain =
     (case first chain of
        None \<Rightarrow> Inl NullPointer
      | Some packet \<Rightarrow>
          (case heap packet of
             None \<Rightarrow> Inl DanglingPointer
           | Some nx \<Rightarrow>
               Inr (if nx = None then chain\<lparr>first := nx, append_at := AtFirst\<rparr>
                    else chain\<lparr>first := nx\<rparr>,
                    packet)))"

text \<open>\<open>linked heap p ps\<close>: following \<^verbatim>\<open>next\<close> from \<open>p\<close> visits exactly \<open>ps\<close> and ends at \<^verbatim>\<open>NULL\<close>.\<close>

fun linked :: "next_heap \<Rightarrow> packet_ptr option \<Rightarrow> packet_ptr list \<Rightarrow> bool" where
  "linked heap p [] = (p = None)"
| "linked heap p (a # rest) =
     (p = Some a \<and> (case heap a of None \<Rightarrow> False | Some nx \<Rightarrow> linked heap nx rest))"

text \<open>
  The chain represents the list \<open>ps\<close> of packets: they are linked from \<^verbatim>\<open>first\<close>, no
  packet occurs twice, and \<^verbatim>\<open>append_at\<close> points at the pointer that ends the chain.
\<close>

definition chain_inv :: "next_heap \<Rightarrow> packet_chain \<Rightarrow> packet_ptr list \<Rightarrow> bool" where
  "chain_inv heap chain ps =
     (linked heap (first chain) ps \<and> distinct ps
      \<and> append_at chain = (if ps = [] then AtFirst else AtNext (last ps)))"

subsection \<open>Sequences of queue operations\<close>

text \<open>
  The two calls other code makes on a queue, each at a clock value:
  \<^verbatim>\<open>forward_(queue, packet)\<close> and \<^verbatim>\<open>run(queue)\<close>.
\<close>

datatype queue_op = Forward net_packet double | Run double

text \<open>
  \<open>net_queue_ops\<close> performs the operations in order and stops at the first error. Beside
  the final queue it reports what an observer of the calls sees: the packets whose
  \<^verbatim>\<open>forward_\<close> call printed \<^verbatim>\<open>enqueue\<close>, each with the clock of that call, and the
  packets handed to the next node, each with the clock of the \<^verbatim>\<open>run\<close> call that handed
  it over; both in the order of the calls.
\<close>

fun net_queue_ops ::
    "net_queue \<Rightarrow> queue_op list \<Rightarrow>
     error + (net_queue \<times> (net_packet \<times> double) list \<times> (net_packet \<times> double) list)" where
  "net_queue_ops queue [] = Inr (queue, [], [])"
| "net_queue_ops queue (Forward packet now # ops) =
     (case net_queue_forward queue packet now of
        (queue', Enqueue t n) \<Rightarrow>
          (case net_queue_ops queue' ops of
             Inl e \<Rightarrow> Inl e
           | Inr (queue'', accepted, departed) \<Rightarrow>
               Inr (queue'', (packet, now) # accepted, departed))
      | (queue', other) \<Rightarrow> net_queue_ops queue' ops)"
| "net_queue_ops queue (Run now # ops) =
     (case net_queue_run queue now of
        Inl e \<Rightarrow> Inl e
      | Inr (queue', None, ev) \<Rightarrow> net_queue_ops queue' ops
      | Inr (queue', Some packet, ev) \<Rightarrow>
          (case net_queue_ops queue' ops of
             Inl e \<Rightarrow> Inl e
           | Inr (queue'', accepted, departed) \<Rightarrow>
               Inr (queue'', accepted, (packet, now) # departed)))"

text \<open>The packet as the queue stores it: \<^verbatim>\<open>packet->enter_at = now\<close>.\<close>

definition stamped :: "net_packet \<times> double \<Rightarrow> net_packet" where
  "stamped pt = (fst pt)\<lparr>enter_at := snd pt\<rparr>"

text \<open>The clock value of an operation.\<close>

fun op_clock :: "queue_op \<Rightarrow> double" where
  "op_clock (Forward packet now) = now"
| "op_clock (Run now) = now"

subsection \<open>The queue with its arithmetic as a parameter\<close>

text \<open>
  \<^verbatim>\<open>net_queue_next_run_at\<close> again, with \<^verbatim>\<open>first->enter_at + queue->prop_delay\<close> computed
  by the addition of \<open>ar\<close>.
\<close>

definition net_queue_next_run_at_fp :: "double_ops \<Rightarrow> net_queue \<Rightarrow> error + double" where
  "net_queue_next_run_at_fp ar queue =
     (case queue_first queue of
        [] \<Rightarrow> Inr PInf
      | packet # rest \<Rightarrow>
          (case op_add ar (enter_at packet) (prop_delay queue) of
             Inl e \<Rightarrow> Inl e
           | Inr emit_at \<Rightarrow>
               Inr (if emit_at < next_emit_at queue then next_emit_at queue else emit_at)))"

text \<open>
  \<^verbatim>\<open>net_queue_run\<close> again, with
  \<^verbatim>\<open>queue->next_emit_at = now + (double)packet->size / queue->bytes_per_sec\<close> computed by
  the conversion, the division and the addition of \<open>ar\<close>.
\<close>

definition net_queue_run_fp ::
    "double_ops \<Rightarrow> net_queue \<Rightarrow> double \<Rightarrow>
     error + (net_queue \<times> net_packet option \<times> log_event option)" where
  "net_queue_run_fp ar queue now =
     (case net_queue_next_run_at_fp ar queue of
        Inl e \<Rightarrow> Inl e
      | Inr at' \<Rightarrow>
          if at' > now then Inr (queue, None, None)
          else case queue_first queue of
            [] \<Rightarrow> Inl NullDereference
          | packet # rest \<Rightarrow>
              (case op_div ar (op_of_size ar (size_p packet)) (bytes_per_sec queue) of
                 Inl e \<Rightarrow> Inl e
               | Inr d \<Rightarrow>
                   (case op_add ar now d of
                      Inl e \<Rightarrow> Inl e
                    | Inr c \<Rightarrow>
                        Inr (queue\<lparr>queue_first := rest,
                                   size_q := size_q queue - size_p packet,
                                   next_emit_at := c\<rparr>,
                             Some packet,
                             Some (Shift now (size_q queue - size_p packet))))))"

text \<open>
  \<open>net_queue_ops\<close> again: the operations in order, with the accepted packets and the
  departures. \<^verbatim>\<open>net_queue_forward\<close> computes no time and is the function above.
\<close>

fun net_queue_ops_fp ::
    "double_ops \<Rightarrow> net_queue \<Rightarrow> queue_op list \<Rightarrow>
     error + (net_queue \<times> (net_packet \<times> double) list \<times> (net_packet \<times> double) list)" where
  "net_queue_ops_fp ar queue [] = Inr (queue, [], [])"
| "net_queue_ops_fp ar queue (Forward packet now # ops) =
     (case net_queue_forward queue packet now of
        (queue', Enqueue t n) \<Rightarrow>
          (case net_queue_ops_fp ar queue' ops of
             Inl e \<Rightarrow> Inl e
           | Inr (queue'', accepted, departed) \<Rightarrow>
               Inr (queue'', (packet, now) # accepted, departed))
      | (queue', other) \<Rightarrow> net_queue_ops_fp ar queue' ops)"
| "net_queue_ops_fp ar queue (Run now # ops) =
     (case net_queue_run_fp ar queue now of
        Inl e \<Rightarrow> Inl e
      | Inr (queue', None, ev) \<Rightarrow> net_queue_ops_fp ar queue' ops
      | Inr (queue', Some packet, ev) \<Rightarrow>
          (case net_queue_ops_fp ar queue' ops of
             Inl e \<Rightarrow> Inl e
           | Inr (queue'', accepted, departed) \<Rightarrow>
               Inr (queue'', accepted, (packet, now) # departed)))"

text \<open>
  \<open>spaced_fp ar bps c departed\<close>: the first departure is not before \<open>c\<close>, and each
  departure at \<open>t\<close> is followed by the next one no sooner than the cursor the code sets
  at \<open>t\<close>, \<^verbatim>\<open>t + (double)packet->size / bytes_per_sec\<close> as \<open>ar\<close> computes it.
\<close>

fun spaced_fp ::
    "double_ops \<Rightarrow> double \<Rightarrow> double \<Rightarrow> (net_packet \<times> double) list \<Rightarrow> bool" where
  "spaced_fp ar bps c [] = True"
| "spaced_fp ar bps c ((packet, t) # rest) =
     (c \<le> t \<and>
      (case op_div ar (op_of_size ar (size_p packet)) bps of
         Inl e \<Rightarrow> False
       | Inr d \<Rightarrow>
           (case op_add ar t d of
              Inl e \<Rightarrow> False
            | Inr c' \<Rightarrow> spaced_fp ar bps c' rest)))"

section \<open>The endpoint\<close>




section \<open>The scheduler\<close>

text \<open>
  \<^verbatim>\<open>struct net_node\<close>: the three function pointers (\<open>forward'\<close> is the member
  \<^verbatim>\<open>forward_\<close>). A node's own data lives in the state
  \<open>'s\<close> of the whole simulation, which every call takes and returns, because a node's
  \<^verbatim>\<open>run\<close> calls \<^verbatim>\<open>forward_\<close> of another node. The global \<^verbatim>\<open>now\<close> is the \<open>double\<close>
  argument: the calls read it and never assign it.
\<close>

record 's net_node =
  forward' :: "'s \<Rightarrow> net_packet \<Rightarrow> double \<Rightarrow> error + 's"
  next_run_at :: "'s \<Rightarrow> double \<Rightarrow> double"
  run :: "'s \<Rightarrow> double \<Rightarrow> error + 's"

text \<open>
  The first loop of \<^verbatim>\<open>run_nodes\<close>: the minimum of the nodes' next-run times, with the
  assertion \<^verbatim>\<open>at >= now\<close> on each.
\<close>

fun next_now_loop :: "'s net_node list \<Rightarrow> 's \<Rightarrow> double \<Rightarrow> double \<Rightarrow> error + double" where
  "next_now_loop [] s now next_now = Inr next_now"
| "next_now_loop (node # nodes) s now next_now =
     (let at' = next_run_at node s now
      in if \<not> at' \<ge> now then Inl AssertionFailed
         else next_now_loop nodes s now (if next_now > at' then at' else next_now))"

text \<open>The second loop: each node is asked again, and run when it is due.\<close>

fun run_loop :: "'s net_node list \<Rightarrow> 's \<Rightarrow> double \<Rightarrow> error + 's" where
  "run_loop [] s now = Inr s"
| "run_loop (node # nodes) s now =
     (if next_run_at node s now \<le> now
      then (case run node s now of Inl e \<Rightarrow> Inl e | Inr s' \<Rightarrow> run_loop nodes s' now)
      else run_loop nodes s now)"

text \<open>\<^verbatim>\<open>run_nodes\<close>, on the pair of the global \<^verbatim>\<open>now\<close> and the simulation state.\<close>

definition run_nodes :: "'s net_node list \<Rightarrow> double \<times> 's \<Rightarrow> error + (double \<times> 's)" where
  "run_nodes nodes st =
     (case st of (now, s) \<Rightarrow>
        (case next_now_loop nodes s now PInf of
           Inl e \<Rightarrow> Inl e
         | Inr next_now \<Rightarrow>
             if isinf next_now then Inr (now, s)
             else (case run_loop nodes s next_now of
                     Inl e \<Rightarrow> Inl e
                   | Inr s' \<Rightarrow> Inr (next_now, s'))))"

text \<open>\<open>k\<close> successive calls of \<^verbatim>\<open>run_nodes\<close>, as the loop of \<^verbatim>\<open>main\<close> makes them.\<close>

fun run_nodes_iter :: "nat \<Rightarrow> 's net_node list \<Rightarrow> double \<times> 's \<Rightarrow> error + (double \<times> 's)" where
  "run_nodes_iter 0 nodes st = Inr st"
| "run_nodes_iter (Suc k) nodes st =
     (case run_nodes nodes st of Inl e \<Rightarrow> Inl e | Inr st' \<Rightarrow> run_nodes_iter k nodes st')"

subsection \<open>The scheduler with a record of the calls\<close>

text \<open>
  The same second loop, which also reports the positions (in the array \<^verbatim>\<open>nodes\<close>,
  counted from \<open>i\<close>) of the nodes whose \<^verbatim>\<open>run\<close> it called, in the order of the calls.
\<close>

fun run_loop_trace ::
    "'s net_node list \<Rightarrow> nat \<Rightarrow> 's \<Rightarrow> double \<Rightarrow> error + ('s \<times> nat list)" where
  "run_loop_trace [] i s now = Inr (s, [])"
| "run_loop_trace (node # nodes) i s now =
     (if next_run_at node s now \<le> now
      then (case run node s now of
              Inl e \<Rightarrow> Inl e
            | Inr s' \<Rightarrow>
                (case run_loop_trace nodes (Suc i) s' now of
                   Inl e \<Rightarrow> Inl e
                 | Inr (s'', tr) \<Rightarrow> Inr (s'', i # tr)))
      else run_loop_trace nodes (Suc i) s now)"

definition run_nodes_trace ::
    "'s net_node list \<Rightarrow> double \<times> 's \<Rightarrow> error + ((double \<times> 's) \<times> nat list)" where
  "run_nodes_trace nodes st =
     (case st of (now, s) \<Rightarrow>
        (case next_now_loop nodes s now PInf of
           Inl e \<Rightarrow> Inl e
         | Inr next_now \<Rightarrow>
             if isinf next_now then Inr ((now, s), [])
             else (case run_loop_trace nodes 0 s next_now of
                     Inl e \<Rightarrow> Inl e
                   | Inr (s', tr) \<Rightarrow> Inr ((next_now, s'), tr))))"

subsection \<open>The queue as a node\<close>

text \<open>
  The three function pointers \<^verbatim>\<open>net_queue_init\<close> stores in \<^verbatim>\<open>queue->super\<close>, for a queue
  kept in the simulation state (\<open>get\<close> reads it, \<open>put\<close> writes it back).
  \<open>next_node_forward\<close> is \<^verbatim>\<open>queue->next_node->forward_\<close>, which \<^verbatim>\<open>net_queue_run\<close> calls
  with the packet it has detached.
\<close>

definition net_queue_node ::
    "('s \<Rightarrow> net_queue) \<Rightarrow> (net_queue \<Rightarrow> 's \<Rightarrow> 's) \<Rightarrow>
     ('s \<Rightarrow> net_packet \<Rightarrow> double \<Rightarrow> error + 's) \<Rightarrow> 's net_node" where
  "net_queue_node get put next_node_forward =
     \<lparr>forward' = (\<lambda>s packet now. Inr (put (fst (net_queue_forward (get s) packet now)) s)),
      next_run_at = (\<lambda>s now. net_queue_next_run_at (get s)),
      run = (\<lambda>s now.
        case net_queue_run (get s) now of
          Inl e \<Rightarrow> Inl e
        | Inr (queue', None, ev) \<Rightarrow> Inr (put queue' s)
        | Inr (queue', Some packet, ev) \<Rightarrow> next_node_forward (put queue' s) packet now)\<rparr>"

text \<open>
  \<open>queue_calls now queue queue'\<close>: \<open>queue'\<close> is what finitely many calls of
  \<^verbatim>\<open>net_queue_forward\<close> and \<^verbatim>\<open>net_queue_run\<close>, all made at clock \<open>now\<close>, make of \<open>queue\<close>.
  This is all that the nodes of \<^verbatim>\<open>main\<close> do to the bottleneck while they are run.
\<close>

inductive queue_calls :: "double \<Rightarrow> net_queue \<Rightarrow> net_queue \<Rightarrow> bool"
  for now queue where
  none: "queue_calls now queue queue"
| forward: "queue_calls now queue queue1 \<Longrightarrow>
     queue_calls now queue (fst (net_queue_forward queue1 packet now))"
| run: "queue_calls now queue queue1 \<Longrightarrow> net_queue_run queue1 now = Inr (queue2, out, ev) \<Longrightarrow>
     queue_calls now queue queue2"

section \<open>Example configurations\<close>

text \<open>The configurations at which the theorems below are evaluated.\<close>

definition ex_addr :: quicly_address_t where
  "ex_addr = \<lparr>sin_family = 2, sin_addr = 0xac100001, sin_port = 54321\<rparr>"

definition ex_packet :: "nat \<Rightarrow> net_packet" where
  "ex_packet n = net_packet_create ex_addr ex_addr (replicate n 0x41) (Finite 1000)"

definition ex_queue :: net_queue where
  "ex_queue = \<lparr>queue_first = [], next_emit_at = Finite 0, prop_delay = Finite (1 / 10),
                bytes_per_sec = Finite 1000000, size_q = 0, capacity = 100000\<rparr>"

definition ex_queue2 :: net_queue where
  "ex_queue2 = ex_queue\<lparr>queue_first := [ex_packet 40000, ex_packet 40000], size_q := 80000\<rparr>"



definition ex_queue0 :: net_queue where
  "ex_queue0 = \<lparr>queue_first = [], next_emit_at = Finite 0, prop_delay = Finite (1 / 10),
                 bytes_per_sec = Finite 1000000, size_q = 0, capacity = 0\<rparr>"

definition ex_ops :: "queue_op list" where
  "ex_ops =
     [Forward (ex_packet 40000) (Finite 1000), Forward (ex_packet 30000) (Finite 1000),
      Forward (ex_packet 40000) (Finite 1000), Forward (ex_packet 20000) (Finite 1000),
      Run (Finite 1000), Run (Finite (1000 + 1 / 10)), Run (Finite (1000 + 1 / 10)),
      Run (Finite (1000 + 14 / 100)), Run (Finite (1000 + 2 / 10))]"

definition ex_accepted :: "(net_packet \<times> double) list" where
  "ex_accepted =
     [(ex_packet 40000, Finite 1000), (ex_packet 30000, Finite 1000),
      (ex_packet 20000, Finite 1000)]"

definition ex_departed :: "(net_packet \<times> double) list" where
  "ex_departed =
     [(ex_packet 40000, Finite (1000 + 1 / 10)), (ex_packet 30000, Finite (1000 + 14 / 100)),
      (ex_packet 20000, Finite (1000 + 2 / 10))]"

text \<open>
  A simulation of three nodes for the scheduler: a source that sends a datagram of \<open>n\<close>
  bytes at each time of its list \<open>ex_pending\<close> (its next-run time is floored at the clock,
  as an endpoint's is), the bottleneck queue fed by the source, and a sink that keeps
  what the queue hands over.
\<close>

record ex_world =
  ex_pending :: "(double \<times> nat) list"
  ex_bottleneck :: net_queue
  ex_delivered :: "net_packet list"

definition ex_sink :: "ex_world net_node" where
  "ex_sink =
     \<lparr>forward' = (\<lambda>s packet now. Inr (s\<lparr>ex_delivered := ex_delivered s @ [packet]\<rparr>)),
      next_run_at = (\<lambda>s now. PInf),
      run = (\<lambda>s now. Inr s)\<rparr>"

definition ex_queue_node :: "ex_world net_node" where
  "ex_queue_node =
     net_queue_node ex_bottleneck (\<lambda>q s. s\<lparr>ex_bottleneck := q\<rparr>) (forward' ex_sink)"

definition ex_source :: "ex_world net_node" where
  "ex_source =
     \<lparr>forward' = (\<lambda>s packet now. Inr s),
      next_run_at = (\<lambda>s now.
        case ex_pending s of
          [] \<Rightarrow> PInf
        | (t, n) # rest \<Rightarrow> if t < now then now else t),
      run = (\<lambda>s now.
        case ex_pending s of
          [] \<Rightarrow> Inr s
        | (t, n) # rest \<Rightarrow>
            forward' ex_queue_node (s\<lparr>ex_pending := rest\<rparr>)
              (net_packet_create ex_addr ex_addr (replicate n 0x41) now) now)\<rparr>"

text \<open>The order of registration in \<^verbatim>\<open>main\<close>: bottleneck, receiver, sender.\<close>

definition ex_nodes :: "ex_world net_node list" where
  "ex_nodes = [ex_queue_node, ex_sink, ex_source]"

definition ex_world0 :: ex_world where
  "ex_world0 =
     \<lparr>ex_pending = [(Finite 1000, 1200), (Finite 1001, 1200)], ex_bottleneck = ex_queue,
      ex_delivered = []\<rparr>"

definition ex_packet_at :: "nat \<Rightarrow> double \<Rightarrow> net_packet" where
  "ex_packet_at n t = net_packet_create ex_addr ex_addr (replicate n 0x41) t"

definition ex_world1 :: ex_world where
  "ex_world1 =
     \<lparr>ex_pending = [(Finite 1001, 1200)],
      ex_bottleneck = ex_queue\<lparr>queue_first := [ex_packet_at 1200 (Finite 1000)], size_q := 1200\<rparr>,
      ex_delivered = []\<rparr>"

definition ex_world2 :: ex_world where
  "ex_world2 =
     \<lparr>ex_pending = [(Finite 1001, 1200)],
      ex_bottleneck = ex_queue\<lparr>next_emit_at := Finite (1000 + 1 / 10 + 1200 / 1000000)\<rparr>,
      ex_delivered = [ex_packet_at 1200 (Finite 1000)]\<rparr>"

definition ex_idle :: ex_world where
  "ex_idle = \<lparr>ex_pending = [], ex_bottleneck = ex_queue, ex_delivered = []\<rparr>"

definition ex_world_both :: ex_world where
  "ex_world_both =
     \<lparr>ex_pending = [(Finite (1000 + 1 / 10), 1200)], ex_bottleneck = ex_queue2,
      ex_delivered = []\<rparr>"

definition ex_world_both' :: ex_world where
  "ex_world_both' =
     \<lparr>ex_pending = [],
      ex_bottleneck = ex_queue
        \<lparr>queue_first := [ex_packet 40000, ex_packet_at 1200 (Finite (1000 + 1 / 10))],
          size_q := 41200, next_emit_at := Finite (1000 + 1 / 10 + 40000 / 1000000)\<rparr>,
      ex_delivered = [ex_packet 40000]\<rparr>"

definition ex_world_mid :: ex_world where
  "ex_world_mid =
     \<lparr>ex_pending = [(Finite (1000 + 1 / 10), 1200)],
      ex_bottleneck = ex_queue
        \<lparr>queue_first := [ex_packet 40000], size_q := 40000,
          next_emit_at := Finite (1000 + 1 / 10 + 40000 / 1000000)\<rparr>,
      ex_delivered = [ex_packet 40000]\<rparr>"

text \<open>The sender registered before the queue, and a queue without propagation delay.\<close>

definition ex_nodes_rev :: "ex_world net_node list" where
  "ex_nodes_rev = [ex_source, ex_queue_node, ex_sink]"

definition ex_queue_nodelay :: net_queue where
  "ex_queue_nodelay = ex_queue\<lparr>prop_delay := Finite 0\<rparr>"

definition ex_nodelay0 :: ex_world where
  "ex_nodelay0 =
     \<lparr>ex_pending = [(Finite 1000, 1200), (Finite 1001, 1200)],
      ex_bottleneck = ex_queue_nodelay, ex_delivered = []\<rparr>"

definition ex_nodelay1 :: ex_world where
  "ex_nodelay1 =
     \<lparr>ex_pending = [(Finite 1001, 1200)],
      ex_bottleneck = ex_queue_nodelay
        \<lparr>queue_first := [ex_packet_at 1200 (Finite 1000)], size_q := 1200\<rparr>,
      ex_delivered = []\<rparr>"

definition ex_nodelay2 :: ex_world where
  "ex_nodelay2 =
     \<lparr>ex_pending = [(Finite 1001, 1200)],
      ex_bottleneck = ex_queue_nodelay\<lparr>next_emit_at := Finite (1000 + 1200 / 1000000)\<rparr>,
      ex_delivered = [ex_packet_at 1200 (Finite 1000)]\<rparr>"

text \<open>Two packets at addresses 1 and 2, the first linked to the second, in a chain.\<close>

definition ex_heap :: next_heap where
  "ex_heap = (\<lambda>p. None)(1 := Some (Some 2), 2 := Some None)"

definition ex_chain :: packet_chain where
  "ex_chain = \<lparr>first = Some 1, append_at = AtNext 2\<rparr>"

text \<open>
  A queue whose delay is the \<^verbatim>\<open>double\<close> nearest to 0.3, \<^verbatim>\<open>0x1.3333333333333p-2\<close>, with
  two packets of 40000 and 30000 bytes stamped at the clock 1000. The other constants are
  the \<^verbatim>\<open>double\<close> values that lines 140 and 161 compute from them:
  \<open>ex_leave1\<close> is \<^verbatim>\<open>1000 + 0.3\<close> (\<^verbatim>\<open>0x1.f426666666666p+9\<close>),
  \<open>ex_serial64\<close> is \<^verbatim>\<open>40000.0 / 1e6\<close> (\<^verbatim>\<open>0x1.47ae147ae147bp-5\<close>),
  \<open>ex_leave2\<close> is their sum, \<open>ex_serial64'\<close> is \<^verbatim>\<open>30000.0 / 1e6\<close>
  (\<^verbatim>\<open>0x1.eb851eb851eb8p-6\<close>) and \<open>ex_cursor3\<close> is \<open>ex_leave2\<close> plus that.
\<close>

definition ex_delay64 :: real where
  "ex_delay64 = 5404319552844595 / 18014398509481984"

definition ex_leave1 :: real where
  "ex_leave1 = 4399365925057331 / 4398046511104"

definition ex_serial64 :: real where
  "ex_serial64 = 5764607523034235 / 144115188075855872"

definition ex_leave2 :: real where
  "ex_leave2 = 4399541846917775 / 4398046511104"

definition ex_serial64' :: real where
  "ex_serial64' = 1080863910568919 / 36028797018963968"

definition ex_cursor3 :: real where
  "ex_cursor3 = 1099918447078277 / 1099511627776"

definition ex_queue64 :: net_queue where
  "ex_queue64 = \<lparr>queue_first = [], next_emit_at = Finite 0, prop_delay = Finite ex_delay64,
                  bytes_per_sec = Finite 1000000, size_q = 0, capacity = 100000\<rparr>"


definition ex_queue64_full :: net_queue where
  "ex_queue64_full =
     ex_queue64\<lparr>queue_first := [ex_packet 40000, ex_packet 30000], size_q := 70000\<rparr>"

definition ex_queue64_next :: net_queue where
  "ex_queue64_next =
     ex_queue64\<lparr>queue_first := [ex_packet 30000], size_q := 30000,
                  next_emit_at := Finite ex_leave2\<rparr>"

definition ex_accepted64 :: "(net_packet \<times> double) list" where
  "ex_accepted64 = [(ex_packet 40000, Finite 1000), (ex_packet 30000, Finite 1000)]"

definition ex_departed64 :: "(net_packet \<times> double) list" where
  "ex_departed64 = [(ex_packet 40000, Finite ex_leave1), (ex_packet 30000, Finite ex_leave2)]"

definition ex_ops64 :: "queue_op list" where
  "ex_ops64 =
     [Forward (ex_packet 40000) (Finite 1000), Forward (ex_packet 30000) (Finite 1000),
      Run (Finite ex_leave1), Run (Finite ex_leave2)]"

section \<open>Properties of the time values\<close>

lemma double_less_simps [simp]:
  "Finite x < Finite y \<longleftrightarrow> x < y"
  "Finite x < PInf"
  "\<not> PInf < a"
  by (cases a; auto simp: less_double_def)+

lemma double_PInf_le_iff [simp]: "PInf \<le> a \<longleftrightarrow> a = PInf"
  by (cases a) simp_all

lemma isinf_iff: "isinf a \<longleftrightarrow> a = PInf"
  by (cases a) simp_all

lemma dadd_nonneg: "Finite 0 \<le> d \<Longrightarrow> a \<le> dadd a d"
  by (cases a; cases d) simp_all

lemma dadd_mono_left: "a \<le> b \<Longrightarrow> dadd a d \<le> dadd b d"
  by (cases a; cases b; cases d) simp_all

lemma ddiv_size_nonneg:
  "Finite 0 < bps \<Longrightarrow> \<exists>d. ddiv (double_of_size n) bps = Some d \<and> Finite 0 \<le> d"
proof (cases bps)
  case (Finite b)
  assume "Finite 0 < bps"
  with Finite have "0 < b" by simp
  moreover have "0 \<le> real (unat n)" by (rule of_nat_0_le_iff)
  ultimately have "0 \<le> real (unat n) / b" by (rule divide_nonneg_pos [rotated])
  with Finite \<open>0 < b\<close> show ?thesis by (simp add: double_of_size_def)
next
  case PInf
  then show ?thesis by (simp add: double_of_size_def)
qed

lemma ddiv_size_defined:
  "bps \<noteq> Finite 0 \<Longrightarrow> \<exists>d. ddiv (double_of_size n) bps = Some d"
  by (cases bps) (simp_all add: double_of_size_def)

lemma double_less_PInf_iff: "a < PInf \<longleftrightarrow> a \<noteq> PInf"
  by (cases a) simp_all

section \<open>Properties of the bottleneck queue\<close>

lemma next_run_at_max:
  "net_queue_next_run_at q =
     (case queue_first q of [] \<Rightarrow> PInf
      | p # rest \<Rightarrow> max (dadd (enter_at p) (prop_delay q)) (next_emit_at q))"
  by (auto simp: net_queue_next_run_at_def Let_def max_def split: list.splits)

lemma forward_keeps_config:
  "next_emit_at (fst (net_queue_forward q p now)) = next_emit_at q"
  "prop_delay (fst (net_queue_forward q p now)) = prop_delay q"
  "bytes_per_sec (fst (net_queue_forward q p now)) = bytes_per_sec q"
  "capacity (fst (net_queue_forward q p now)) = capacity q"
  by (simp_all add: net_queue_forward_def)

lemma run_cases:
  assumes "net_queue_run q now = Inr (q', out, ev)"
  shows "(out = None \<and> ev = None \<and> q' = q \<and> now < net_queue_next_run_at q)
       \<or> (\<exists>p rest d. out = Some p \<and> queue_first q = p # rest
            \<and> net_queue_next_run_at q \<le> now
            \<and> ddiv (double_of_size (size_p p)) (bytes_per_sec q) = Some d
            \<and> q' = q\<lparr>queue_first := rest, size_q := size_q q - size_p p,
                      next_emit_at := dadd now d\<rparr>
            \<and> ev = Some (Shift now (size_q q - size_p p)))"
  using assms
  by (auto simp: net_queue_run_def not_less split: if_splits list.splits option.splits)


lemma forward_size_bounded:
  "size_q q \<le> capacity q \<Longrightarrow> size_q (fst (net_queue_forward q p now)) \<le> capacity q"
  by (simp add: net_queue_forward_def not_less)

lemma forward_seq_bounded:
  "size_q q \<le> capacity q \<Longrightarrow>
   size_q (net_queue_forward_seq q ps) \<le> capacity q
   \<and> capacity (net_queue_forward_seq q ps) = capacity q"
proof (induction ps arbitrary: q)
  case Nil
  then show ?case by simp
next
  case (Cons a ps)
  obtain p t where a: "a = (p, t)" by (cases a)
  let ?q = "fst (net_queue_forward q p t)"
  have "size_q ?q \<le> capacity ?q"
    using Cons.prems by (simp add: forward_size_bounded forward_keeps_config)
  from Cons.IH [OF this] show ?case
    by (simp add: a forward_keeps_config)
qed

text \<open>
  Claim C4. An enqueue whose byte total \<^verbatim>\<open>queue->size + packet->size\<close> (in \<^verbatim>\<open>size_t\<close>
  arithmetic, as the code computes it) exceeds the capacity drops the packet and returns
  the queue as it was: contents, byte total and cursor. Any other enqueue stamps the
  packet with the clock, appends it at the tail and adds its size to the byte total; the
  sum is the sum of the natural numbers when that fits 64 bits. After any sequence of
  enqueue operations on a queue whose byte total is within the capacity, it still is.
\<close>

theorem net_queue_forward_capacity:
  "(size_q q + size_p p > capacity q \<longrightarrow>
      net_queue_forward q p now = (q, Drop now (size_q q)))
   \<and> (\<not> size_q q + size_p p > capacity q \<longrightarrow>
      net_queue_forward q p now =
        (q\<lparr>queue_first := queue_first q @ [p\<lparr>enter_at := now\<rparr>],
           size_q := size_q q + size_p p\<rparr>, Enqueue now (size_q q)))
   \<and> (\<not> size_q q + size_p p > capacity q \<and> unat (size_q q) + unat (size_p p) < 2 ^ 64 \<longrightarrow>
      unat (size_q (fst (net_queue_forward q p now))) = unat (size_q q) + unat (size_p p))
   \<and> (size_q q \<le> capacity q \<longrightarrow>
      size_q (net_queue_forward_seq q ps) \<le> capacity q
      \<and> capacity (net_queue_forward_seq q ps) = capacity q)"
proof -
  have "unat (size_q q) + unat (size_p p) < 2 ^ 64 \<Longrightarrow>
      unat (size_q q + size_p p) = unat (size_q q) + unat (size_p p)"
    using unat_add_lem [of "size_q q" "size_p p"] by simp
  then show ?thesis
    using forward_seq_bounded [of q ps] by (simp add: net_queue_forward_def)
qed

text \<open>
  The scenario of the specification: capacity 100000, packets of 40000 bytes. The first is
  accepted, the third is dropped, the byte total stays within 100000.
\<close>

theorem net_queue_forward_capacity_witness:
  "net_queue_forward ex_queue (ex_packet 40000) (Finite 1000)
     = (ex_queue\<lparr>queue_first := [ex_packet 40000], size_q := 40000\<rparr>, Enqueue (Finite 1000) 0)
   \<and> unat (size_q (fst (net_queue_forward ex_queue (ex_packet 40000) (Finite 1000)))) = 0 + 40000
   \<and> net_queue_forward ex_queue2 (ex_packet 40000) (Finite 1000)
     = (ex_queue2, Drop (Finite 1000) 80000)
   \<and> size_q (net_queue_forward_seq ex_queue
        [(ex_packet 40000, Finite 1000), (ex_packet 40000, Finite 1000),
         (ex_packet 40000, Finite 1000)]) \<le> 100000"
proof -
  let ?p = "ex_packet 40000"
  let ?t = "Finite 1000"
  have under: "\<not> size_q ex_queue + size_p ?p > capacity ex_queue"
    by (simp add: ex_queue_def ex_packet_def net_packet_create_def)
  have nowrap: "unat (size_q ex_queue) + unat (size_p ?p) < 2 ^ 64"
    by (simp add: ex_queue_def ex_packet_def net_packet_create_def)
  have over: "size_q ex_queue2 + size_p ?p > capacity ex_queue2"
    by (simp add: ex_queue_def ex_queue2_def ex_packet_def net_packet_create_def)
  have inv: "size_q ex_queue \<le> capacity ex_queue"
    by (simp add: ex_queue_def)
  note inst = net_queue_forward_capacity [of ex_queue ?p ?t "[(?p, ?t), (?p, ?t), (?p, ?t)]"]
  have "net_queue_forward ex_queue ?p ?t
     = (ex_queue\<lparr>queue_first := [?p], size_q := 40000\<rparr>, Enqueue ?t 0)"
    using inst under by (simp add: ex_queue_def ex_packet_def net_packet_create_def)
  moreover have "unat (size_q (fst (net_queue_forward ex_queue ?p ?t))) = 0 + 40000"
    using inst under nowrap by (simp add: ex_queue_def ex_packet_def net_packet_create_def)
  moreover have "net_queue_forward ex_queue2 ?p ?t = (ex_queue2, Drop ?t 80000)"
    using net_queue_forward_capacity [of ex_queue2 ?p ?t "[]"] over
    by (simp add: ex_queue2_def)
  moreover have "size_q (net_queue_forward_seq ex_queue [(?p, ?t), (?p, ?t), (?p, ?t)]) \<le> 100000"
    using inst inv by (simp add: ex_queue_def)
  ultimately show ?thesis by simp
qed




section \<open>The chain of packets is a first-in first-out list\<close>

lemma chain_init_inv: "chain_inv heap chain_init []"
  by (simp add: chain_inv_def chain_init_def)

lemma linked_last_next:
  "linked heap p ps \<Longrightarrow> ps \<noteq> [] \<Longrightarrow> heap (last ps) = Some None"
proof (induction ps arbitrary: p)
  case Nil
  then show ?case by simp
next
  case (Cons a rest)
  then obtain nx where nx: "heap a = Some nx" "linked heap nx rest"
    by (auto split: option.splits)
  show ?case
  proof (cases rest)
    case Nil
    with nx show ?thesis by simp
  next
    case (Cons b rest')
    with Cons.IH [OF nx(2)] show ?thesis by simp
  qed
qed

lemma linked_append:
  "linked heap p ps \<Longrightarrow> ps \<noteq> [] \<Longrightarrow> distinct ps \<Longrightarrow> q \<notin> set ps \<Longrightarrow>
   heap q = Some None \<Longrightarrow>
   linked (heap(last ps := Some (Some q))) p (ps @ [q])"
proof (induction ps arbitrary: p)
  case Nil
  then show ?case by simp
next
  case (Cons a rest)
  then obtain nx where nx: "heap a = Some nx" "linked heap nx rest"
    by (auto split: option.splits)
  show ?case
  proof (cases rest)
    case Nil
    with nx Cons.prems show ?thesis by auto
  next
    case (Cons b rest')
    with Cons.prems have "rest \<noteq> []" "distinct rest" "q \<notin> set rest" "last rest \<noteq> a"
      by auto
    with Cons.IH [OF nx(2)] Cons.prems nx \<open>rest = b # rest'\<close> show ?thesis by simp
  qed
qed

text \<open>
  Appending a packet that is allocated, is not in the chain and whose \<^verbatim>\<open>next\<close> is
  \<^verbatim>\<open>NULL\<close> (as \<^verbatim>\<open>net_packet_create\<close> leaves it) appends it to the list, as
  \<open>net_queue_forward\<close> does with \<open>queue_first\<close>; no packet outside the chain is written.
\<close>

lemma chain_append_correct:
  assumes "chain_inv heap chain ps" "heap packet = Some None" "packet \<notin> set ps"
  shows "\<exists>heap' chain'. chain_append heap chain packet = Inr (heap', chain')
      \<and> chain_inv heap' chain' (ps @ [packet])
      \<and> (\<forall>a. a \<notin> set ps \<longrightarrow> heap' a = heap a)"
proof (cases "ps = []")
  case True
  with assms show ?thesis
    by (simp add: chain_inv_def chain_append_def)
next
  case False
  with assms(1) have at: "append_at chain = AtNext (last ps)"
    and l: "linked heap (first chain) ps" and d: "distinct ps"
    by (simp_all add: chain_inv_def)
  from linked_last_next [OF l False] have "heap (last ps) = Some None" .
  with at have "chain_append heap chain packet =
      Inr (heap(last ps := Some (Some packet)), chain\<lparr>append_at := AtNext packet\<rparr>)"
    by (simp add: chain_append_def)
  moreover from linked_append [OF l False d assms(3,2)] d assms(3)
  have "chain_inv (heap(last ps := Some (Some packet))) (chain\<lparr>append_at := AtNext packet\<rparr>)
      (ps @ [packet])"
    by (simp add: chain_inv_def)
  moreover from False have "last ps \<in> set ps" by simp
  then have "\<forall>a. a \<notin> set ps \<longrightarrow> (heap(last ps := Some (Some packet))) a = heap a"
    by auto
  ultimately show ?thesis by blast
qed

text \<open>
  Detaching removes the head of the list and returns it, as \<open>net_queue_run\<close> does with
  \<open>queue_first\<close>; on an empty chain it dereferences \<^verbatim>\<open>NULL\<close>.
\<close>

lemma chain_detach_correct:
  assumes "chain_inv heap chain (packet # ps)"
  shows "\<exists>chain'. chain_detach heap chain = Inr (chain', packet) \<and> chain_inv heap chain' ps"
proof -
  from assms obtain nx where f: "first chain = Some packet" and nx: "heap packet = Some nx"
    and l: "linked heap nx ps" and d: "distinct ps" "packet \<notin> set ps"
    and at: "append_at chain = AtNext (last (packet # ps))"
    by (auto simp: chain_inv_def split: option.splits)
  show ?thesis
  proof (cases ps)
    case Nil
    with l have "nx = None" by simp
    with f nx Nil show ?thesis
      by (simp add: chain_detach_def chain_inv_def)
  next
    case (Cons b rest)
    with l have "nx = Some b" by simp
    with f nx l d at Cons show ?thesis
      by (simp add: chain_detach_def chain_inv_def)
  qed
qed

lemma chain_detach_empty:
  "chain_inv heap chain [] \<Longrightarrow> chain_detach heap chain = Inl NullPointer"
  by (simp add: chain_inv_def chain_detach_def)

text \<open>
  The condition on \<^verbatim>\<open>next\<close> is needed: the packet detached from a chain of two still
  points at the second one, so appended to an empty chain it brings that packet along.
\<close>

lemma detached_packet_keeps_next:
  "chain_inv ex_heap ex_chain [1, 2]
   \<and> chain_detach ex_heap ex_chain = Inr (\<lparr>first = Some 2, append_at = AtNext 2\<rparr>, 1)
   \<and> chain_append ex_heap chain_init 1 = Inr (ex_heap, \<lparr>first = Some 1, append_at = AtNext 1\<rparr>)
   \<and> \<not> chain_inv ex_heap \<lparr>first = Some 1, append_at = AtNext 1\<rparr> [1]
   \<and> linked ex_heap (Some 1) [1, 2]"
  by (simp add: chain_inv_def chain_detach_def chain_append_def chain_init_def ex_heap_def
      ex_chain_def)

section \<open>Sequences of operations on a queue\<close>

lemma forward_cases:
  "net_queue_forward q p now = (q, Drop now (size_q q))
   \<or> net_queue_forward q p now =
        (q\<lparr>queue_first := queue_first q @ [stamped (p, now)],
           size_q := size_q q + size_p p\<rparr>, Enqueue now (size_q q))"
  by (simp add: net_queue_forward_def stamped_def)

text \<open>
  What one operation at the head of a successful sequence did: dropped a packet, enqueued
  it, found the queue not due, or handed the head packet over.
\<close>

lemma ops_Cons_cases:
  assumes "net_queue_ops q (x # ops) = Inr (q', acc, dep)"
  obtains
    (drop) p now where "x = Forward p now" "size_q q + size_p p > capacity q"
      "net_queue_ops q ops = Inr (q', acc, dep)"
  | (enqueue) p now acc' where "x = Forward p now" "\<not> size_q q + size_p p > capacity q"
      "acc = (p, now) # acc'"
      "net_queue_ops (q\<lparr>queue_first := queue_first q @ [stamped (p, now)],
                         size_q := size_q q + size_p p\<rparr>) ops = Inr (q', acc', dep)"
  | (idle) now where "x = Run now" "now < net_queue_next_run_at q"
      "net_queue_ops q ops = Inr (q', acc, dep)"
  | (emit) now p rest d dep' where "x = Run now" "queue_first q = p # rest"
      "net_queue_next_run_at q \<le> now"
      "ddiv (double_of_size (size_p p)) (bytes_per_sec q) = Some d"
      "dep = (p, now) # dep'"
      "net_queue_ops (q\<lparr>queue_first := rest, size_q := size_q q - size_p p,
                         next_emit_at := dadd now d\<rparr>) ops = Inr (q', acc, dep')"
proof (cases x)
  case (Forward p now)
  show ?thesis
  proof (cases "size_q q + size_p p > capacity q")
    case True
    with assms Forward have "net_queue_ops q ops = Inr (q', acc, dep)"
      by (simp add: net_queue_forward_def)
    with Forward True show ?thesis by (rule drop)
  next
    case False
    with assms Forward obtain acc' where "acc = (p, now) # acc'"
      "net_queue_ops (q\<lparr>queue_first := queue_first q @ [stamped (p, now)],
                         size_q := size_q q + size_p p\<rparr>) ops = Inr (q', acc', dep)"
      by (auto simp: net_queue_forward_def stamped_def split: sum.splits)
    with Forward False show ?thesis by (intro enqueue)
  qed
next
  case (Run now)
  from assms Run obtain q1 out ev where r: "net_queue_run q now = Inr (q1, out, ev)"
    by (auto split: sum.splits)
  from run_cases [OF r] show ?thesis
  proof (elim disjE conjE exE)
    assume "out = None" "q1 = q" "now < net_queue_next_run_at q"
    with assms Run r show ?thesis by (intro idle) auto
  next
    fix p rest d
    assume e: "out = Some p" "queue_first q = p # rest" "net_queue_next_run_at q \<le> now"
      "ddiv (double_of_size (size_p p)) (bytes_per_sec q) = Some d"
      "q1 = q\<lparr>queue_first := rest, size_q := size_q q - size_p p, next_emit_at := dadd now d\<rparr>"
    with assms Run r obtain dep' where "dep = (p, now) # dep'"
      "net_queue_ops q1 ops = Inr (q', acc, dep')"
      by (auto split: sum.splits)
    with e Run show ?thesis by (intro emit) auto
  qed
qed

lemma ops_keep_config:
  "net_queue_ops q ops = Inr (q', acc, dep) \<Longrightarrow>
   prop_delay q' = prop_delay q \<and> bytes_per_sec q' = bytes_per_sec q \<and> capacity q' = capacity q"
proof (induction ops arbitrary: q acc dep)
  case Nil
  then show ?case by simp
next
  case (Cons x ops)
  from Cons.prems show ?case
    by (cases rule: ops_Cons_cases) (auto dest: Cons.IH)
qed

lemma ops_fifo:
  "net_queue_ops q ops = Inr (q', acc, dep) \<Longrightarrow>
   queue_first q @ map stamped acc = map fst dep @ queue_first q'"
proof (induction ops arbitrary: q acc dep)
  case Nil
  then show ?case by simp
next
  case (Cons x ops)
  from Cons.prems show ?case
    by (cases rule: ops_Cons_cases) (auto dest: Cons.IH)
qed

lemma ops_total:
  "bytes_per_sec q \<noteq> Finite 0 \<Longrightarrow> \<forall>x \<in> set ops. op_clock x \<noteq> PInf \<Longrightarrow>
   \<exists>r. net_queue_ops q ops = Inr r"
proof (induction ops arbitrary: q)
  case Nil
  then show ?case by simp
next
  case (Cons x ops)
  show ?case
  proof (cases x)
    case (Forward p now)
    have "bytes_per_sec (fst (net_queue_forward q p now)) \<noteq> Finite 0"
      using Cons.prems by (simp add: forward_keeps_config)
    from Cons.IH [OF this] Cons.prems(2) obtain r where
      "net_queue_ops (fst (net_queue_forward q p now)) ops = Inr r" by auto
    with Forward show ?thesis
      by (cases r) (auto split: prod.splits log_event.splits)
  next
    case (Run now)
    with Cons.prems have fin: "now \<noteq> PInf" by simp
    show ?thesis
    proof (cases "net_queue_next_run_at q > now")
      case True
      then have "net_queue_run q now = Inr (q, None, None)"
        by (simp add: net_queue_run_def)
      with Run Cons.IH [OF Cons.prems(1)] Cons.prems(2) show ?thesis by auto
    next
      case False
      with fin obtain p rest where qf: "queue_first q = p # rest"
        by (cases "queue_first q") (auto simp: net_queue_next_run_at_def double_less_PInf_iff)
      from ddiv_size_defined [OF Cons.prems(1)] obtain d where
        d: "ddiv (double_of_size (size_p p)) (bytes_per_sec q) = Some d" by blast
      let ?q = "q\<lparr>queue_first := rest, size_q := size_q q - size_p p,
                   next_emit_at := dadd now d\<rparr>"
      have "bytes_per_sec ?q \<noteq> Finite 0" using Cons.prems by simp
      from Cons.IH [OF this] Cons.prems(2) obtain r where "net_queue_ops ?q ops = Inr r"
        by auto
      with Run False qf d show ?thesis
        by (cases r) (auto simp: net_queue_run_def)
    qed
  qed
qed

text \<open>
  Claim C5. After any sequence of enqueue and run operations, at any clock values and for
  any bandwidth and delay, the packets handed downstream are, in order, the first of the
  queue's initial contents followed by the successfully enqueued packets (as stamped), and
  the queue holds exactly the remaining ones in the same order: nothing is reordered and
  the front is the oldest packet still present. The sequence runs to its end whenever
  the bandwidth is not 0 and the clock values are finite. (That the list \<open>queue_first\<close>
  is what the pointers of the C code represent is \<open>chain_append_correct\<close> and
  \<open>chain_detach_correct\<close>.)
\<close>

theorem net_queue_fifo:
  "(net_queue_ops q ops = Inr (q', accepted, departed) \<longrightarrow>
      map fst departed = take (length departed) (queue_first q @ map stamped accepted)
      \<and> queue_first q' = drop (length departed) (queue_first q @ map stamped accepted))
   \<and> (bytes_per_sec q \<noteq> Finite 0 \<and> (\<forall>x \<in> set ops. op_clock x \<noteq> PInf) \<longrightarrow>
        (\<exists>r. net_queue_ops q ops = Inr r))"
proof -
  have "map fst departed = take (length departed) (queue_first q @ map stamped accepted)
      \<and> queue_first q' = drop (length departed) (queue_first q @ map stamped accepted)"
    if "net_queue_ops q ops = Inr (q', accepted, departed)"
  proof -
    from ops_fifo [OF that]
    have "queue_first q @ map stamped accepted = map fst departed @ queue_first q'" .
    moreover have "length (map fst departed) = length departed" by simp
    ultimately show ?thesis by (metis append_eq_conv_conj)
  qed
  then show ?thesis using ops_total [of q ops] by blast
qed

text \<open>
  The example sequence: packets of 40000, 30000, 40000 and 20000 bytes arrive at 1000
  (the third is dropped), and the queue is run at 1000, 1000.1, 1000.1, 1000.14 and
  1000.2.
\<close>

lemma ex_ops_result:
  "net_queue_ops ex_queue ex_ops =
     Inr (ex_queue\<lparr>next_emit_at := Finite (1000 + 22 / 100)\<rparr>, ex_accepted, ex_departed)"
  by (simp add: ex_ops_def ex_queue_def ex_accepted_def ex_departed_def ex_packet_def
      net_packet_create_def net_queue_forward_def net_queue_run_def net_queue_next_run_at_def
      double_of_size_def)

text \<open>
  In the example the three accepted packets leave in the order of their arrival.
\<close>

theorem net_queue_fifo_witness:
  "net_queue_ops ex_queue ex_ops =
     Inr (ex_queue\<lparr>next_emit_at := Finite (1000 + 22 / 100)\<rparr>, ex_accepted, ex_departed)
   \<and> map fst ex_departed = take 3 (map stamped ex_accepted)
   \<and> drop 3 (map stamped ex_accepted) = []
   \<and> bytes_per_sec ex_queue \<noteq> Finite 0
   \<and> (\<exists>r. net_queue_ops ex_queue ex_ops = Inr r)"
proof -
  note inst = net_queue_fifo [of ex_queue ex_ops
      "ex_queue\<lparr>next_emit_at := Finite (1000 + 22 / 100)\<rparr>" ex_accepted ex_departed]
  have cfg: "bytes_per_sec ex_queue \<noteq> Finite 0" "queue_first ex_queue = []"
    by (simp_all add: ex_queue_def)
  have clocks: "\<forall>x \<in> set ex_ops. op_clock x \<noteq> PInf"
    by (simp add: ex_ops_def)
  have len: "length ex_departed = 3"
    by (simp add: ex_departed_def)
  from inst ex_ops_result cfg len
  have "map fst ex_departed = take 3 (map stamped ex_accepted)"
    "drop 3 (map stamped ex_accepted) = []"
    by simp_all
  moreover from inst cfg clocks have "\<exists>r. net_queue_ops ex_queue ex_ops = Inr r"
    by blast
  ultimately show ?thesis using ex_ops_result cfg clocks by blast
qed

section \<open>Departure times in double precision\<close>

subsection \<open>Rounding at a known exponent\<close>

text \<open>
  The bit length of a number between two successive powers of 2, and with it the quantum
  of a normal \<^verbatim>\<open>double\<close> value whose binade is known: the rounding of a concrete value
  is then a division, a floor and a comparison.
\<close>

lemma bit_length_bounds:
  "n \<noteq> 0 \<Longrightarrow> 2 ^ (bit_length n - 1) \<le> n \<and> n < 2 ^ bit_length n"
proof (induction n rule: bit_length.induct)
  case (1 n)
  show ?case
  proof (cases "n div 2 = 0")
    case True
    with 1 have "n = 1" by presburger
    then show ?thesis by (simp add: bit_length.simps)
  next
    case False
    with 1 have ih: "2 ^ (bit_length (n div 2) - 1) \<le> n div 2" "n div 2 < 2 ^ bit_length (n div 2)"
      by simp_all
    from False have pos: "0 < bit_length (n div 2)"
      by (subst bit_length.simps) simp
    have b: "bit_length n = bit_length (n div 2) + 1"
      using 1 by (subst bit_length.simps) simp
    from pos have "(2::nat) ^ (bit_length (n div 2)) = 2 * 2 ^ (bit_length (n div 2) - 1)"
      by (cases "bit_length (n div 2)") simp_all
    with ih(1) have "2 ^ bit_length (n div 2) \<le> n" by linarith
    moreover from ih(2) have "n < 2 * 2 ^ bit_length (n div 2)" by linarith
    ultimately show ?thesis by (simp add: b)
  qed
qed

lemma bit_length_eq:
  assumes "2 ^ k \<le> n" "n < 2 ^ (k + 1)"
  shows "bit_length n = k + 1"
proof -
  have "(0::nat) < 2 ^ k" by simp
  with assms(1) have "n \<noteq> 0" by linarith
  from bit_length_bounds [OF this]
  have lo: "2 ^ (bit_length n - 1) \<le> n" and hi: "n < 2 ^ bit_length n" by simp_all
  from assms(1) hi have "(2::nat) ^ k < 2 ^ bit_length n" by linarith
  then have "k < bit_length n" by (rule power_less_imp_less_exp [rotated]) simp
  moreover from lo assms(2) have "(2::nat) ^ (bit_length n - 1) < 2 ^ (k + 1)" by linarith
  then have "bit_length n - 1 < k + 1" by (rule power_less_imp_less_exp [rotated]) simp
  ultimately show ?thesis by linarith
qed

lemma pow2_powi: "pow2 k = 2 powi k"
  by (simp add: pow2_def power_int_def power_one_over inverse_eq_divide)

lemma pow2_scale:
  assumes "- 1074 \<le> e"
  shows "pow2 e * 2 ^ 1074 = 2 ^ nat (e + 1074)"
proof -
  have "pow2 e * 2 ^ 1074 = 2 powi e * 2 powi (1074 :: int)"
    by (simp add: pow2_powi)
  also have "\<dots> = 2 powi (e + 1074)"
    by (simp add: power_int_add)
  also from assms have "\<dots> = 2 ^ nat (e + 1074)"
    by (simp add: power_int_def)
  finally show ?thesis .
qed

lemma b64_quantum_eq:
  assumes "pow2 e \<le> a" "a < pow2 (e + 1)" "- 1022 \<le> e"
  shows "b64_quantum a = e - 52"
proof -
  let ?k = "nat (e + 1074)"
  from assms(3) have k1: "nat (e + 1 + 1074) = ?k + 1" by simp
  from assms(1) have "pow2 e * 2 ^ 1074 \<le> a * 2 ^ 1074" by simp
  with pow2_scale [of e] assms(3) have lo: "(2::real) ^ ?k \<le> a * 2 ^ 1074" by simp
  from assms(2) have "a * 2 ^ 1074 < pow2 (e + 1) * 2 ^ 1074" by simp
  with pow2_scale [of "e + 1"] assms(3) k1 have hi: "a * 2 ^ 1074 < (2::real) ^ (?k + 1)"
    by simp
  let ?n = "\<lfloor>a * 2 ^ 1074\<rfloor>"
  from lo have "of_int (2 ^ ?k) \<le> a * 2 ^ 1074" by simp
  then have lo': "2 ^ ?k \<le> ?n" by (simp only: le_floor_iff)
  from hi have "a * 2 ^ 1074 < of_int (2 ^ (?k + 1))" by simp
  then have hi': "?n < 2 ^ (?k + 1)" by (simp only: floor_less_iff)
  from lo' have "(2::nat) ^ ?k \<le> nat ?n"
    by (metis nat_mono nat_numeral nat_power_eq zero_le_numeral)
  moreover from hi' have "nat ?n < (2::nat) ^ (?k + 1)"
    by (metis nat_less_iff nat_numeral nat_power_eq of_nat_numeral of_nat_power zero_le_numeral
        lo' order_trans zero_le_power)
  ultimately have "bit_length (nat ?n) = ?k + 1" by (rule bit_length_eq)
  with assms(3) show ?thesis by (simp add: b64_quantum_def)
qed

lemma round64_abs_eq:
  assumes "pow2 e \<le> a" "a < pow2 (e + 1)" "- 1022 \<le> e"
    and "of_int (round_even (a / pow2 (e - 52))) * pow2 (e - 52) = r" "r < 2 ^ 1024"
  shows "round64_abs a = Finite r"
  using assms(4,5) by (simp add: round64_abs_def b64_quantum_eq [OF assms(1,2,3)] Let_def)

subsection \<open>The example in binary64\<close>

lemmas ex_values64 = ex_delay64_def ex_leave1_def ex_serial64_def ex_leave2_def
  ex_serial64'_def ex_cursor3_def

lemma ex_delay64_rounds: "round64 (3 / 10) = Inr (Finite ex_delay64)"
proof -
  have "round64_abs (3 / 10) = Finite ex_delay64"
    by (rule round64_abs_eq [where e = "- 2"]) (simp_all add: pow2_def round_even_def ex_values64)
  then show ?thesis by (simp add: round64_def)
qed

lemma ex_add_delay: "b64_add (Finite 1000) (Finite ex_delay64) = Inr (Finite ex_leave1)"
proof -
  have "round64_abs (1000 + ex_delay64) = Finite ex_leave1"
    by (rule round64_abs_eq [where e = 9]) (simp_all add: pow2_def round_even_def ex_values64)
  moreover have "0 \<le> 1000 + ex_delay64" by (simp add: ex_values64)
  ultimately show ?thesis by (simp add: round64_def)
qed

lemma ex_of_size: "b64_of_size 40000 = Finite 40000" "b64_of_size 30000 = Finite 30000"
proof -
  have "round64_abs 40000 = Finite 40000"
    by (rule round64_abs_eq [where e = 15]) (simp_all add: pow2_def round_even_def)
  then show "b64_of_size 40000 = Finite 40000" by (simp add: b64_of_size_def)
  have "round64_abs 30000 = Finite 30000"
    by (rule round64_abs_eq [where e = 14]) (simp_all add: pow2_def round_even_def)
  then show "b64_of_size 30000 = Finite 30000" by (simp add: b64_of_size_def)
qed

lemma ex_div_serial:
  "b64_div (Finite 40000) (Finite 1000000) = Inr (Finite ex_serial64)"
  "b64_div (Finite 30000) (Finite 1000000) = Inr (Finite ex_serial64')"
proof -
  have "round64_abs (40000 / 1000000) = Finite ex_serial64"
    by (rule round64_abs_eq [where e = "- 5"]) (simp_all add: pow2_def round_even_def ex_values64)
  then show "b64_div (Finite 40000) (Finite 1000000) = Inr (Finite ex_serial64)"
    by (simp add: round64_def)
  have "round64_abs (30000 / 1000000) = Finite ex_serial64'"
    by (rule round64_abs_eq [where e = "- 6"]) (simp_all add: pow2_def round_even_def ex_values64)
  then show "b64_div (Finite 30000) (Finite 1000000) = Inr (Finite ex_serial64')"
    by (simp add: round64_def)
qed

lemma ex_add_cursor:
  "b64_add (Finite ex_leave1) (Finite ex_serial64) = Inr (Finite ex_leave2)"
  "b64_add (Finite ex_leave2) (Finite ex_serial64') = Inr (Finite ex_cursor3)"
proof -
  have "round64_abs (ex_leave1 + ex_serial64) = Finite ex_leave2"
    by (rule round64_abs_eq [where e = 9]) (simp_all add: pow2_def round_even_def ex_values64)
  moreover have "0 \<le> ex_leave1 + ex_serial64" by (simp add: ex_values64)
  ultimately show "b64_add (Finite ex_leave1) (Finite ex_serial64) = Inr (Finite ex_leave2)"
    by (simp add: round64_def)
  have "round64_abs (ex_leave2 + ex_serial64') = Finite ex_cursor3"
    by (rule round64_abs_eq [where e = 9]) (simp_all add: pow2_def round_even_def ex_values64)
  moreover have "0 \<le> ex_leave2 + ex_serial64'" by (simp add: ex_values64)
  ultimately show "b64_add (Finite ex_leave2) (Finite ex_serial64') = Inr (Finite ex_cursor3)"
    by (simp add: round64_def)
qed

lemma ex_order64:
  "0 < ex_leave1" "ex_leave1 < ex_leave2" "\<not> ex_leave1 < 0" "\<not> ex_leave2 < ex_leave1"
  "0 \<le> ex_leave1"
  by (simp_all add: ex_values64)

lemmas ex_arith64 = binary64_def ex_add_delay ex_of_size ex_div_serial ex_add_cursor ex_order64

lemma ex_run64_first:
  "net_queue_run_fp binary64 ex_queue64_full (Finite ex_leave1) =
     Inr (ex_queue64_next, Some (ex_packet 40000), Some (Shift (Finite ex_leave1) 30000))"
  by (simp add: net_queue_run_fp_def net_queue_next_run_at_fp_def ex_queue64_full_def
      ex_queue64_next_def ex_queue64_def ex_packet_def net_packet_create_def ex_arith64
      del: b64_add.simps b64_div.simps)

lemma ex_run64_second:
  "net_queue_run_fp binary64 ex_queue64_next (Finite ex_leave2) =
     Inr (ex_queue64\<lparr>next_emit_at := Finite ex_cursor3\<rparr>, Some (ex_packet 30000),
          Some (Shift (Finite ex_leave2) 0))"
  by (simp add: net_queue_run_fp_def net_queue_next_run_at_fp_def
      ex_queue64_next_def ex_queue64_def ex_packet_def net_packet_create_def ex_arith64
      del: b64_add.simps b64_div.simps)

lemma ex_forward64:
  "net_queue_forward ex_queue64 (ex_packet 40000) (Finite 1000) =
     (ex_queue64\<lparr>queue_first := [ex_packet 40000], size_q := 40000\<rparr>, Enqueue (Finite 1000) 0)"
  "net_queue_forward (ex_queue64\<lparr>queue_first := [ex_packet 40000], size_q := 40000\<rparr>)
     (ex_packet 30000) (Finite 1000) = (ex_queue64_full, Enqueue (Finite 1000) 40000)"
  by (simp_all add: net_queue_forward_def ex_queue64_def ex_queue64_full_def ex_packet_def
      net_packet_create_def)

lemma ex_ops64_result:
  "net_queue_ops_fp binary64 ex_queue64 ex_ops64 =
     Inr (ex_queue64\<lparr>next_emit_at := Finite ex_cursor3\<rparr>, ex_accepted64, ex_departed64)"
  by (simp add: ex_ops64_def ex_forward64 ex_run64_first ex_run64_second ex_accepted64_def
      ex_departed64_def)

text \<open>
  Claim C6, as stated, fails in the arithmetic of the code. Two packets of 40000 and
  30000 bytes enter the empty queue at \<open>T = 1000\<close>; the delay \<open>D\<close> is the \<^verbatim>\<open>double\<close>
  nearest to 0.3, the cursor \<open>C\<close> is 0 and the bandwidth is \<open>10\<^sup>6\<close> bytes per second.
  The queue is due at \<^verbatim>\<open>enter_at + prop_delay\<close> as line 140 computes it, \<open>ex_leave1\<close>, which
  is below \<open>max (T + D) C\<close>: the first packet leaves before that time. Line 161 then sets
  the cursor to \<open>ex_leave2\<close>, where the second packet leaves: less than \<open>40000 / 10\<^sup>6\<close>
  seconds after the first, and also less than that quotient as a \<^verbatim>\<open>double\<close>.
\<close>

theorem binary64_departure_before_exact_time:
  "net_queue_ops_fp binary64 ex_queue64 ex_ops64 =
     Inr (ex_queue64\<lparr>next_emit_at := Finite ex_cursor3\<rparr>,
          [(ex_packet 40000, Finite 1000), (ex_packet 30000, Finite 1000)],
          [(ex_packet 40000, Finite ex_leave1), (ex_packet 30000, Finite ex_leave2)])
   \<and> Finite ex_leave1 < max (dadd (Finite 1000) (prop_delay ex_queue64)) (next_emit_at ex_queue64)
   \<and> bytes_per_sec ex_queue64 = Finite 1000000
   \<and> ex_leave2 - ex_leave1 < real (unat (size_p (ex_packet 40000))) / 1000000
   \<and> b64_div (b64_of_size (size_p (ex_packet 40000))) (bytes_per_sec ex_queue64)
       = Inr (Finite ex_serial64)
   \<and> ex_leave2 - ex_leave1 < ex_serial64"
proof -
  have "Finite ex_leave1
      < max (dadd (Finite 1000) (prop_delay ex_queue64)) (next_emit_at ex_queue64)"
    by (simp add: ex_queue64_def ex_values64)
  moreover have "ex_leave2 - ex_leave1 < real (unat (size_p (ex_packet 40000))) / 1000000"
    by (simp add: ex_values64 ex_packet_def net_packet_create_def)
  moreover have "bytes_per_sec ex_queue64 = Finite 1000000"
    by (simp add: ex_queue64_def)
  moreover have "b64_div (b64_of_size (size_p (ex_packet 40000))) (bytes_per_sec ex_queue64)
      = Inr (Finite ex_serial64)"
    by (simp add: ex_queue64_def ex_packet_def net_packet_create_def ex_of_size ex_div_serial
        del: b64_div.simps)
  moreover have "ex_leave2 - ex_leave1 < ex_serial64"
    by (simp add: ex_values64)
  ultimately show ?thesis
    using ex_ops64_result by (simp add: ex_accepted64_def ex_departed64_def del: b64_div.simps)
qed

subsection \<open>Any arithmetic\<close>

lemma run_fp_cases:
  assumes "net_queue_run_fp ar q now = Inr (q', out, ev)"
  shows "(out = None \<and> ev = None \<and> q' = q)
       \<or> (\<exists>p rest s d c. out = Some p \<and> queue_first q = p # rest
            \<and> op_add ar (enter_at p) (prop_delay q) = Inr s
            \<and> max s (next_emit_at q) \<le> now
            \<and> op_div ar (op_of_size ar (size_p p)) (bytes_per_sec q) = Inr d
            \<and> op_add ar now d = Inr c
            \<and> q' = q\<lparr>queue_first := rest, size_q := size_q q - size_p p, next_emit_at := c\<rparr>
            \<and> ev = Some (Shift now (size_q q - size_p p)))"
  using assms
  by (auto simp: net_queue_run_fp_def net_queue_next_run_at_fp_def not_less max_def
      split: if_splits list.splits sum.splits)

lemma ops_fp_Cons_cases:
  assumes "net_queue_ops_fp ar q (x # ops) = Inr (q', acc, dep)"
  obtains
    (drop) p now where "x = Forward p now" "size_q q + size_p p > capacity q"
      "net_queue_ops_fp ar q ops = Inr (q', acc, dep)"
  | (enqueue) p now acc' where "x = Forward p now" "\<not> size_q q + size_p p > capacity q"
      "acc = (p, now) # acc'"
      "net_queue_ops_fp ar (q\<lparr>queue_first := queue_first q @ [stamped (p, now)],
                         size_q := size_q q + size_p p\<rparr>) ops = Inr (q', acc', dep)"
  | (idle) now where "x = Run now" "net_queue_ops_fp ar q ops = Inr (q', acc, dep)"
  | (emit) now p rest s d c dep' where "x = Run now" "queue_first q = p # rest"
      "op_add ar (enter_at p) (prop_delay q) = Inr s" "max s (next_emit_at q) \<le> now"
      "op_div ar (op_of_size ar (size_p p)) (bytes_per_sec q) = Inr d"
      "op_add ar now d = Inr c"
      "dep = (p, now) # dep'"
      "net_queue_ops_fp ar (q\<lparr>queue_first := rest, size_q := size_q q - size_p p,
                         next_emit_at := c\<rparr>) ops = Inr (q', acc, dep')"
proof (cases x)
  case (Forward p now)
  show ?thesis
  proof (cases "size_q q + size_p p > capacity q")
    case True
    with assms Forward have "net_queue_ops_fp ar q ops = Inr (q', acc, dep)"
      by (simp add: net_queue_forward_def)
    with Forward True show ?thesis by (rule drop)
  next
    case False
    with assms Forward obtain acc' where "acc = (p, now) # acc'"
      "net_queue_ops_fp ar (q\<lparr>queue_first := queue_first q @ [stamped (p, now)],
                         size_q := size_q q + size_p p\<rparr>) ops = Inr (q', acc', dep)"
      by (auto simp: net_queue_forward_def stamped_def split: sum.splits)
    with Forward False show ?thesis by (intro enqueue)
  qed
next
  case (Run now)
  from assms Run obtain q1 out ev where r: "net_queue_run_fp ar q now = Inr (q1, out, ev)"
    by (auto split: sum.splits)
  from run_fp_cases [OF r] show ?thesis
  proof (elim disjE conjE exE)
    assume "out = None" "q1 = q"
    with assms Run r show ?thesis by (intro idle) auto
  next
    fix p rest s d c
    assume e: "out = Some p" "queue_first q = p # rest"
      "op_add ar (enter_at p) (prop_delay q) = Inr s" "max s (next_emit_at q) \<le> now"
      "op_div ar (op_of_size ar (size_p p)) (bytes_per_sec q) = Inr d"
      "op_add ar now d = Inr c"
      "q1 = q\<lparr>queue_first := rest, size_q := size_q q - size_p p, next_emit_at := c\<rparr>"
    with assms Run r obtain dep' where "dep = (p, now) # dep'"
      "net_queue_ops_fp ar q1 ops = Inr (q', acc, dep')"
      by (auto split: sum.splits)
    with e Run show ?thesis by (intro emit) auto
  qed
qed

lemma ops_fp_fifo:
  "net_queue_ops_fp ar q ops = Inr (q', acc, dep) \<Longrightarrow>
   queue_first q @ map stamped acc = map fst dep @ queue_first q'"
proof (induction ops arbitrary: q acc dep)
  case Nil
  then show ?case by simp
next
  case (Cons x ops)
  from Cons.prems show ?case
    by (cases rule: ops_fp_Cons_cases) (auto dest: Cons.IH)
qed

lemma ops_fp_delay:
  "net_queue_ops_fp ar q ops = Inr (q', acc, dep) \<Longrightarrow>
   \<forall>(p, t) \<in> set dep. \<exists>s. op_add ar (enter_at p) (prop_delay q) = Inr s \<and> s \<le> t"
proof (induction ops arbitrary: q acc dep)
  case Nil
  then show ?case by simp
next
  case (Cons x ops)
  from Cons.prems show ?case
  proof (cases rule: ops_fp_Cons_cases)
    case (emit now p rest s d c dep')
    from emit(4) have "s \<le> now" by simp
    with emit Cons.IH [OF emit(8)] show ?thesis by simp
  next
    case (drop p now)
    from Cons.IH [OF drop(3)] show ?thesis .
  next
    case (enqueue p now acc')
    from Cons.IH [OF enqueue(4)] show ?thesis by simp
  next
    case (idle now)
    from Cons.IH [OF idle(2)] show ?thesis .
  qed
qed

lemma ops_fp_spaced:
  "net_queue_ops_fp ar q ops = Inr (q', acc, dep) \<Longrightarrow>
   spaced_fp ar (bytes_per_sec q) (next_emit_at q) dep"
proof (induction ops arbitrary: q acc dep)
  case Nil
  then show ?case by simp
next
  case (Cons x ops)
  from Cons.prems show ?case
  proof (cases rule: ops_fp_Cons_cases)
    case (emit now p rest s d c dep')
    from emit(4) have "next_emit_at q \<le> now" by simp
    with emit Cons.IH [OF emit(8)] show ?thesis by simp
  next
    case (drop p now)
    from Cons.IH [OF drop(3)] show ?thesis .
  next
    case (enqueue p now acc')
    from Cons.IH [OF enqueue(4)] show ?thesis by simp
  next
    case (idle now)
    from Cons.IH [OF idle(2)] show ?thesis .
  qed
qed

text \<open>
  Claim C6, amended. In the arithmetic of the code, whatever its rounding: a packet handed
  to the next node by \<^verbatim>\<open>net_queue_run\<close> at the clock \<open>now\<close> was the head of the queue,
  \<open>now\<close> is not before the larger of \<^verbatim>\<open>enter_at + prop_delay\<close> as the code computes that
  sum and the cursor, and the cursor becomes
  \<^verbatim>\<open>now + (double)size / bytes_per_sec\<close>, again as computed. Over any sequence of
  \<^verbatim>\<open>forward_\<close> and \<^verbatim>\<open>run\<close> calls on a queue that starts empty, the \<open>i\<close>-th departure is
  the \<open>i\<close>-th accepted packet, it leaves no earlier than its enqueue clock plus the delay
  as computed, and every departure is no earlier than the cursor computed at the departure
  before it (\<open>spaced_fp\<close>). The computed sums can be below the exact ones.
\<close>

theorem net_queue_departure_times_computed:
  "(net_queue_run_fp ar q now = Inr (q1, Some p, ev) \<longrightarrow>
      (\<exists>rest. queue_first q = p # rest)
      \<and> (\<exists>s. op_add ar (enter_at p) (prop_delay q) = Inr s
            \<and> max s (next_emit_at q) \<le> now)
      \<and> (\<exists>d. op_div ar (op_of_size ar (size_p p)) (bytes_per_sec q) = Inr d
            \<and> op_add ar now d = Inr (next_emit_at q1)))
   \<and> (queue_first q = [] \<and> net_queue_ops_fp ar q ops = Inr (q', accepted, departed) \<longrightarrow>
        length departed \<le> length accepted
        \<and> (\<forall>i < length departed.
              fst (departed ! i) = stamped (accepted ! i)
              \<and> (\<exists>s. op_add ar (snd (accepted ! i)) (prop_delay q) = Inr s
                    \<and> s \<le> snd (departed ! i)))
        \<and> spaced_fp ar (bytes_per_sec q) (next_emit_at q) departed)"
proof -
  have one: "(\<exists>rest. queue_first q = p # rest)
      \<and> (\<exists>s. op_add ar (enter_at p) (prop_delay q) = Inr s
            \<and> max s (next_emit_at q) \<le> now)
      \<and> (\<exists>d. op_div ar (op_of_size ar (size_p p)) (bytes_per_sec q) = Inr d
            \<and> op_add ar now d = Inr (next_emit_at q1))"
    if "net_queue_run_fp ar q now = Inr (q1, Some p, ev)"
    using run_fp_cases [OF that] by auto
  have many: "length departed \<le> length accepted
        \<and> (\<forall>i < length departed.
              fst (departed ! i) = stamped (accepted ! i)
              \<and> (\<exists>s. op_add ar (snd (accepted ! i)) (prop_delay q) = Inr s
                    \<and> s \<le> snd (departed ! i)))
        \<and> spaced_fp ar (bytes_per_sec q) (next_emit_at q) departed"
    if empty: "queue_first q = []"
      and ops: "net_queue_ops_fp ar q ops = Inr (q', accepted, departed)"
  proof -
    from ops_fp_fifo [OF ops] empty
    have eq: "map stamped accepted = map fst departed @ queue_first q'" by simp
    then have "length (map stamped accepted) = length (map fst departed @ queue_first q')"
      by simp
    then have len: "length departed \<le> length accepted" by simp
    have "fst (departed ! i) = stamped (accepted ! i)
        \<and> (\<exists>s. op_add ar (snd (accepted ! i)) (prop_delay q) = Inr s
              \<and> s \<le> snd (departed ! i))"
      if i: "i < length departed" for i
    proof -
      from eq have "map stamped accepted ! i = (map fst departed @ queue_first q') ! i"
        by simp
      with i len have same: "stamped (accepted ! i) = fst (departed ! i)"
        by (simp add: nth_append)
      from i have "departed ! i \<in> set departed" by simp
      with ops_fp_delay [OF ops]
      have "\<exists>s. op_add ar (enter_at (fst (departed ! i))) (prop_delay q) = Inr s
          \<and> s \<le> snd (departed ! i)"
        by (auto simp: case_prod_beta)
      moreover have "enter_at (stamped (accepted ! i)) = snd (accepted ! i)"
        by (simp add: stamped_def)
      ultimately show ?thesis using same by simp
    qed
    with len ops_fp_spaced [OF ops] show ?thesis by blast
  qed
  from one many show ?thesis by blast
qed

text \<open>
  The example in binary64: the run that hands over the first packet, and the whole
  sequence with its second departure.
\<close>

lemma ex_spaced64:
  "spaced_fp binary64 (bytes_per_sec ex_queue64) (next_emit_at ex_queue64) ex_departed64"
  by (simp add: ex_departed64_def ex_queue64_def ex_packet_def net_packet_create_def ex_arith64
      del: b64_add.simps b64_div.simps)

theorem net_queue_departure_times_computed_witness:
  "net_queue_run_fp binary64 ex_queue64_full (Finite ex_leave1) =
     Inr (ex_queue64_next, Some (ex_packet 40000), Some (Shift (Finite ex_leave1) 30000))
   \<and> (\<exists>rest. queue_first ex_queue64_full = ex_packet 40000 # rest)
   \<and> (\<exists>s. op_add binary64 (enter_at (ex_packet 40000)) (prop_delay ex_queue64_full) = Inr s
         \<and> max s (next_emit_at ex_queue64_full) \<le> Finite ex_leave1)
   \<and> (\<exists>d. op_div binary64 (op_of_size binary64 (size_p (ex_packet 40000)))
              (bytes_per_sec ex_queue64_full) = Inr d
         \<and> op_add binary64 (Finite ex_leave1) d = Inr (next_emit_at ex_queue64_next))
   \<and> queue_first ex_queue64 = []
   \<and> net_queue_ops_fp binary64 ex_queue64 ex_ops64 =
       Inr (ex_queue64\<lparr>next_emit_at := Finite ex_cursor3\<rparr>, ex_accepted64, ex_departed64)
   \<and> length ex_departed64 \<le> length ex_accepted64
   \<and> fst (ex_departed64 ! 1) = stamped (ex_accepted64 ! 1)
   \<and> (\<exists>s. op_add binary64 (snd (ex_accepted64 ! 1)) (prop_delay ex_queue64) = Inr s
         \<and> s \<le> snd (ex_departed64 ! 1))
   \<and> spaced_fp binary64 (bytes_per_sec ex_queue64) (next_emit_at ex_queue64) ex_departed64"
proof -
  note one = net_queue_departure_times_computed [where ar = binary64 and q = ex_queue64_full
      and now = "Finite ex_leave1" and ?q1.0 = ex_queue64_next and p = "ex_packet 40000"
      and ev = "Some (Shift (Finite ex_leave1) 30000)", THEN conjunct1, rule_format]
  note many = net_queue_departure_times_computed [where ar = binary64 and q = ex_queue64
      and ops = ex_ops64 and q' = "ex_queue64\<lparr>next_emit_at := Finite ex_cursor3\<rparr>"
      and accepted = ex_accepted64 and departed = ex_departed64, THEN conjunct2, rule_format]
  have empty: "queue_first ex_queue64 = []"
    by (simp add: ex_queue64_def)
  have len: "(1::nat) < length ex_departed64"
    by (simp add: ex_departed64_def)
  from many [OF conjI [OF empty ex_ops64_result]]
  have all: "length ex_departed64 \<le> length ex_accepted64"
    "\<forall>i < length ex_departed64.
        fst (ex_departed64 ! i) = stamped (ex_accepted64 ! i)
        \<and> (\<exists>s. op_add binary64 (snd (ex_accepted64 ! i)) (prop_delay ex_queue64) = Inr s
              \<and> s \<le> snd (ex_departed64 ! i))"
    "spaced_fp binary64 (bytes_per_sec ex_queue64) (next_emit_at ex_queue64) ex_departed64"
    by blast+
  from all(2) len
  have snd: "fst (ex_departed64 ! 1) = stamped (ex_accepted64 ! 1)
     \<and> (\<exists>s. op_add binary64 (snd (ex_accepted64 ! 1)) (prop_delay ex_queue64) = Inr s
           \<and> s \<le> snd (ex_departed64 ! 1))"
    by blast
  from one [OF ex_run64_first] snd all(1,3) empty ex_run64_first ex_ops64_result
  show ?thesis by blast
qed

subsection \<open>Exact arithmetic\<close>

text \<open>
  With the exact operations the functions of this section are \<open>net_queue_next_run_at\<close>,
  \<open>net_queue_run\<close> and \<open>net_queue_ops\<close>.
\<close>

lemma exact_reals_next_run_at:
  "net_queue_next_run_at_fp exact_reals queue = Inr (net_queue_next_run_at queue)"
  by (simp add: net_queue_next_run_at_fp_def net_queue_next_run_at_def exact_reals_def
      split: list.splits)

lemma exact_reals_run: "net_queue_run_fp exact_reals queue now = net_queue_run queue now"
  by (simp add: net_queue_run_fp_def net_queue_run_def exact_reals_next_run_at)
    (simp add: exact_reals_def split: list.splits option.splits)

lemma exact_reals_ops: "net_queue_ops_fp exact_reals queue ops = net_queue_ops queue ops"
proof (induction ops arbitrary: queue)
  case Nil
  show ?case by simp
next
  case (Cons x ops)
  show ?case
    by (cases x)
      (simp_all add: Cons.IH exact_reals_run split: sum.splits prod.splits option.splits)
qed

section \<open>Properties of the endpoint\<close>



section \<open>A queue of capacity 0\<close>

text \<open>
  Claim C8, as stated, fails for a packet of size 0: a queue built with a depth of 0
  seconds has capacity 0, and \<^verbatim>\<open>0 + 0 > 0\<close> is false, so the packet is enqueued.
\<close>

theorem zero_capacity_accepts_empty_packet:
  "net_queue_init (Finite (1 / 10)) (Finite 1000000) (Finite 0) = Inr ex_queue0
   \<and> capacity ex_queue0 = 0
   \<and> net_queue_forward ex_queue0 (ex_packet 0) (Finite 1000)
       = (ex_queue0\<lparr>queue_first := [ex_packet 0]\<rparr>, Enqueue (Finite 1000) 0)"
  by (simp add: net_queue_init_def ex_queue0_def net_queue_forward_def ex_packet_def
      net_packet_create_def)

lemma forward_seq_zero_capacity:
  "capacity q = 0 \<Longrightarrow> size_q q = 0 \<Longrightarrow> \<forall>(p, t) \<in> set ps. size_p p \<noteq> 0 \<Longrightarrow>
   net_queue_forward_seq q ps = q"
proof (induction ps)
  case Nil
  then show ?case by simp
next
  case (Cons a ps)
  obtain p t where a: "a = (p, t)" by (cases a)
  with Cons.prems have "size_p p \<noteq> 0" by simp
  then have "0 < size_p p" by (simp add: word_greater_zero_iff)
  with Cons.prems have "fst (net_queue_forward q p t) = q"
    by (simp add: net_queue_forward_def)
  with Cons show ?case by (simp add: a)
qed

text \<open>
  Claim C8, amended. A queue built with a capacity depth of 0 seconds and a finite
  bandwidth has byte capacity 0 and is empty. A queue of capacity 0 and byte total 0 drops
  every packet whose size is not 0, and stays as it was; so it does after any sequence of
  such packets. A packet of size 0 is not dropped: it is stamped and appended.
\<close>

theorem zero_capacity_drops_nonempty:
  "(bytes_per_sec' \<noteq> PInf \<longrightarrow>
      (\<exists>q. net_queue_init prop_delay' bytes_per_sec' (Finite 0) = Inr q
          \<and> capacity q = 0 \<and> size_q q = 0 \<and> queue_first q = []))
   \<and> (capacity q = 0 \<and> size_q q = 0 \<and> size_p p \<noteq> 0 \<longrightarrow>
        net_queue_forward q p now = (q, Drop now 0))
   \<and> (capacity q = 0 \<and> size_q q = 0 \<and> (\<forall>(p, t) \<in> set ps. size_p p \<noteq> 0) \<longrightarrow>
        net_queue_forward_seq q ps = q)
   \<and> (capacity q = 0 \<and> size_q q = 0 \<and> size_p p = 0 \<longrightarrow>
        net_queue_forward q p now =
          (q\<lparr>queue_first := queue_first q @ [p\<lparr>enter_at := now\<rparr>]\<rparr>, Enqueue now 0))"
proof -
  have a: "bytes_per_sec' \<noteq> PInf \<Longrightarrow>
      (\<exists>q. net_queue_init prop_delay' bytes_per_sec' (Finite 0) = Inr q
          \<and> capacity q = 0 \<and> size_q q = 0 \<and> queue_first q = [])"
    by (cases bytes_per_sec') (simp_all add: net_queue_init_def)
  have b: "capacity q = 0 \<Longrightarrow> size_q q = 0 \<Longrightarrow> size_p p \<noteq> 0 \<Longrightarrow>
        net_queue_forward q p now = (q, Drop now 0)"
    by (simp add: net_queue_forward_def word_greater_zero_iff)
  have c: "capacity q = 0 \<Longrightarrow> size_q q = 0 \<Longrightarrow> size_p p = 0 \<Longrightarrow>
        net_queue_forward q p now =
          (q\<lparr>queue_first := queue_first q @ [p\<lparr>enter_at := now\<rparr>]\<rparr>, Enqueue now 0)"
    by (simp add: net_queue_forward_def)
  show ?thesis
    using a b c forward_seq_zero_capacity [of q ps] by blast
qed

text \<open>
  Packets of 1200 bytes, of 1 byte and of no byte at the queue built with depth 0.
\<close>

theorem zero_capacity_drops_nonempty_witness:
  "net_queue_init (Finite (1 / 10)) (Finite 1000000) (Finite 0) = Inr ex_queue0
   \<and> net_queue_forward ex_queue0 (ex_packet 1200) (Finite 1000) = (ex_queue0, Drop (Finite 1000) 0)
   \<and> net_queue_forward_seq ex_queue0 [(ex_packet 1200, Finite 1000), (ex_packet 1, Finite 1001)]
       = ex_queue0
   \<and> net_queue_forward ex_queue0 (ex_packet 0) (Finite 1001)
       = (ex_queue0\<lparr>queue_first := [(ex_packet 0)\<lparr>enter_at := Finite 1001\<rparr>]\<rparr>,
          Enqueue (Finite 1001) 0)"
proof -
  have cfg: "capacity ex_queue0 = 0 \<and> size_q ex_queue0 = 0"
    by (simp add: ex_queue0_def)
  have sz: "size_p (ex_packet 1200) \<noteq> 0" "size_p (ex_packet 1) \<noteq> 0" "size_p (ex_packet 0) = 0"
    by (simp_all add: ex_packet_def net_packet_create_def)
  have empty: "queue_first ex_queue0 = []"
    by (simp add: ex_queue0_def)
  note inst = zero_capacity_drops_nonempty [where bytes_per_sec' = "Finite 1000000"
      and prop_delay' = "Finite (1 / 10)" and q = ex_queue0 and p = "ex_packet 1200"
      and now = "Finite 1000"
      and ps = "[(ex_packet 1200, Finite 1000), (ex_packet 1, Finite 1001)]"]
  note inst0 = zero_capacity_drops_nonempty [where q = ex_queue0 and p = "ex_packet 0"
      and now = "Finite 1001", THEN conjunct2, THEN conjunct2, THEN conjunct2, rule_format]
  have "net_queue_init (Finite (1 / 10)) (Finite 1000000) (Finite 0) = Inr ex_queue0"
    using inst by (simp add: net_queue_init_def ex_queue0_def)
  moreover have "net_queue_forward ex_queue0 (ex_packet 1200) (Finite 1000)
      = (ex_queue0, Drop (Finite 1000) 0)"
    using inst cfg sz by simp
  moreover have "net_queue_forward_seq ex_queue0
      [(ex_packet 1200, Finite 1000), (ex_packet 1, Finite 1001)] = ex_queue0"
    using inst cfg sz by (simp del: net_queue_forward_seq.simps)
  moreover have "net_queue_forward ex_queue0 (ex_packet 0) (Finite 1001)
      = (ex_queue0\<lparr>queue_first := [(ex_packet 0)\<lparr>enter_at := Finite 1001\<rparr>]\<rparr>,
         Enqueue (Finite 1001) 0)"
    using inst0 [OF conjI [OF conjunct1 [OF cfg] conjI [OF conjunct2 [OF cfg] sz(3)]]] empty
    by simp
  ultimately show ?thesis by simp
qed

section \<open>Properties of the scheduler\<close>

lemma min_if: "(if (next_now :: double) > a then a else next_now) = min next_now a"
  by (auto simp: min_def)

text \<open>
  The first loop returns the minimum of the next-run times when every assertion holds,
  and fails otherwise.
\<close>

lemma next_now_loop_Inr:
  "\<forall>n \<in> set nodes. now \<le> next_run_at n s now \<Longrightarrow>
   next_now_loop nodes s now acc = Inr (Min (insert acc ((\<lambda>n. next_run_at n s now) ` set nodes)))"
proof (induction nodes arbitrary: acc)
  case Nil
  then show ?case by simp
next
  case (Cons n nodes)
  let ?S = "(\<lambda>n. next_run_at n s now) ` set nodes"
  have "Min (insert (min acc (next_run_at n s now)) ?S)
      = Min (insert acc (insert (next_run_at n s now) ?S))"
    by (cases "?S = {}") (simp_all add: min.assoc)
  with Cons show ?case by (simp add: Let_def min_if)
qed

lemma next_now_loop_Inl:
  "\<exists>n \<in> set nodes. \<not> now \<le> next_run_at n s now \<Longrightarrow>
   next_now_loop nodes s now acc = Inl AssertionFailed"
  by (induction nodes arbitrary: acc) (auto simp: Let_def)

lemma next_now_loop_cases:
  "next_now_loop nodes s now acc = Inr m \<longleftrightarrow>
   (\<forall>n \<in> set nodes. now \<le> next_run_at n s now)
   \<and> m = Min (insert acc ((\<lambda>n. next_run_at n s now) ` set nodes))"
proof (cases "\<forall>n \<in> set nodes. now \<le> next_run_at n s now")
  case True
  then show ?thesis by (auto simp: next_now_loop_Inr)
next
  case False
  then have "\<exists>n \<in> set nodes. \<not> now \<le> next_run_at n s now" by blast
  from next_now_loop_Inl [OF this] False show ?thesis by simp
qed

lemma Min_insert_PInf:
  "finite S \<Longrightarrow> S \<noteq> {} \<Longrightarrow> Min (insert PInf S) = Min S"
  by (simp add: min_def)

lemma run_loop_not_due:
  "\<forall>n \<in> set nodes. \<not> next_run_at n s now \<le> now \<Longrightarrow> run_loop nodes s now = Inr s"
  by (induction nodes) simp_all

text \<open>
  The loop that records its calls computes the same state as the loop of the program.
\<close>

lemma run_loop_trace_erase:
  "run_loop nodes s now = map_sum id fst (run_loop_trace nodes i s now)"
proof (induction nodes arbitrary: i s)
  case Nil
  show ?case by simp
next
  case (Cons n nodes)
  show ?case by (simp add: Cons.IH [of _ "Suc i"] split: sum.splits prod.splits)
qed

lemma run_nodes_trace_erase:
  "run_nodes nodes st = map_sum id fst (run_nodes_trace nodes st)"
  by (cases st)
     (auto simp: run_nodes_def run_nodes_trace_def run_loop_trace_erase [of nodes _ _ 0]
        split: sum.splits)

lemma run_loop_trace_bounds:
  "run_loop_trace nodes i s now = Inr (s', tr) \<Longrightarrow>
   sorted_wrt (<) tr \<and> (\<forall>k \<in> set tr. i \<le> k \<and> k < i + length nodes)"
proof (induction nodes arbitrary: i s tr)
  case Nil
  then show ?case by simp
next
  case (Cons n nodes)
  show ?case
  proof (cases "next_run_at n s now \<le> now")
    case True
    with Cons.prems obtain s1 tr1 where
      "run n s now = Inr s1" "run_loop_trace nodes (Suc i) s1 now = Inr (s', tr1)" "tr = i # tr1"
      by (auto split: sum.splits)
    with Cons.IH [of "Suc i" s1 tr1] show ?thesis by fastforce
  next
    case False
    with Cons.prems have "run_loop_trace nodes (Suc i) s now = Inr (s', tr)" by simp
    with Cons.IH [of "Suc i" s tr] show ?thesis by fastforce
  qed
qed

lemma run_loop_trace_member:
  "run_loop_trace nodes i s now = Inr (s', tr) \<Longrightarrow> j < length nodes \<Longrightarrow>
   \<exists>sj. run_loop (take j nodes) s now = Inr sj
      \<and> (i + j \<in> set tr \<longleftrightarrow> next_run_at (nodes ! j) sj now \<le> now)"
proof (induction nodes arbitrary: i s tr j)
  case Nil
  then show ?case by simp
next
  case (Cons n nodes)
  show ?case
  proof (cases "next_run_at n s now \<le> now")
    case True
    with Cons.prems obtain s1 tr1 where
      r: "run n s now = Inr s1" "run_loop_trace nodes (Suc i) s1 now = Inr (s', tr1)"
         "tr = i # tr1"
      by (auto split: sum.splits)
    show ?thesis
    proof (cases j)
      case 0
      with True r show ?thesis by simp
    next
      case (Suc j')
      with Cons.prems have "j' < length nodes" by simp
      from Cons.IH [OF r(2) this] obtain sj where
        "run_loop (take j' nodes) s1 now = Inr sj"
        "Suc i + j' \<in> set tr1 \<longleftrightarrow> next_run_at (nodes ! j') sj now \<le> now" by blast
      with True r Suc show ?thesis by simp
    qed
  next
    case False
    with Cons.prems have r: "run_loop_trace nodes (Suc i) s now = Inr (s', tr)" by simp
    show ?thesis
    proof (cases j)
      case 0
      from run_loop_trace_bounds [OF r] have "i \<notin> set tr" by auto
      with False 0 show ?thesis by simp
    next
      case (Suc j')
      with Cons.prems have "j' < length nodes" by simp
      from Cons.IH [OF r this] obtain sj where
        "run_loop (take j' nodes) s now = Inr sj"
        "Suc i + j' \<in> set tr \<longleftrightarrow> next_run_at (nodes ! j') sj now \<le> now" by blast
      with False Suc show ?thesis by simp
    qed
  qed
qed

text \<open>
  The two ways a step returns: idle, with the clock and the state untouched, or with the
  clock advanced to the minimum and the second loop run at that clock.
\<close>

lemma run_nodes_trace_cases:
  assumes "run_nodes_trace nodes (now, s) = Inr ((now', s'), tr)"
  obtains
    (idle) "\<forall>n \<in> set nodes. now \<le> next_run_at n s now"
      "Min (insert PInf ((\<lambda>n. next_run_at n s now) ` set nodes)) = PInf"
      "now' = now" "s' = s" "tr = []"
  | (advance) "\<forall>n \<in> set nodes. now \<le> next_run_at n s now"
      "now' \<noteq> PInf"
      "now' = Min (insert PInf ((\<lambda>n. next_run_at n s now) ` set nodes))"
      "run_loop_trace nodes 0 s now' = Inr (s', tr)"
proof -
  from assms obtain m where m: "next_now_loop nodes s now PInf = Inr m"
    by (auto simp: run_nodes_trace_def split: sum.splits)
  then have all: "\<forall>n \<in> set nodes. now \<le> next_run_at n s now"
    and min: "m = Min (insert PInf ((\<lambda>n. next_run_at n s now) ` set nodes))"
    by (simp_all add: next_now_loop_cases)
  show thesis
  proof (cases "isinf m")
    case True
    with assms m have "now' = now" "s' = s" "tr = []"
      by (simp_all add: run_nodes_trace_def)
    with all min True show thesis by (intro idle) (simp_all add: isinf_iff)
  next
    case False
    with assms m have "now' = m" "run_loop_trace nodes 0 s m = Inr (s', tr)"
      by (auto simp: run_nodes_trace_def split: sum.splits)
    with all min False show thesis by (intro advance) (simp_all add: isinf_iff)
  qed
qed

lemma run_nodes_trace_exists:
  "run_nodes nodes st = Inr st' \<Longrightarrow> \<exists>tr. run_nodes_trace nodes st = Inr (st', tr)"
  by (cases "run_nodes_trace nodes st") (auto simp: run_nodes_trace_erase)

lemma Min_next_ge:
  assumes "nodes \<noteq> []" "\<forall>n \<in> set nodes. now \<le> next_run_at n s now"
  shows "now \<le> Min ((\<lambda>n. next_run_at n s now) ` set nodes)"
  using assms by (simp add: Min_ge_iff)

lemma run_nodes_clock_step:
  assumes "run_nodes nodes (now, s) = Inr (now', s')"
  shows "now \<le> now'"
proof -
  from run_nodes_trace_exists [OF assms] obtain tr where
    "run_nodes_trace nodes (now, s) = Inr ((now', s'), tr)" by blast
  then show ?thesis
  proof (cases rule: run_nodes_trace_cases)
    case idle
    then show ?thesis by simp
  next
    case advance
    show ?thesis
    proof (cases "nodes = []")
      case True
      with advance show ?thesis by simp
    next
      case False
      from Min_next_ge [OF False advance(1)]
      have "now \<le> Min ((\<lambda>n. next_run_at n s now) ` set nodes)" .
      with advance(3) False show ?thesis by (simp add: Min_insert_PInf)
    qed
  qed
qed

lemma run_nodes_iter_add:
  "run_nodes_iter (i + d) nodes st =
     (case run_nodes_iter i nodes st of Inl e \<Rightarrow> Inl e | Inr st' \<Rightarrow> run_nodes_iter d nodes st')"
  by (induction i arbitrary: st) (auto split: sum.splits)

lemma run_nodes_iter_clock:
  "run_nodes_iter k nodes st = Inr st' \<Longrightarrow> fst st \<le> fst st'"
proof (induction k arbitrary: st)
  case 0
  then show ?case by simp
next
  case (Suc k)
  then obtain st1 where a: "run_nodes nodes st = Inr st1" "run_nodes_iter k nodes st1 = Inr st'"
    by (auto split: sum.splits)
  from a(1) have "fst st \<le> fst st1"
    using run_nodes_clock_step [of nodes "fst st" "snd st" "fst st1" "snd st1"] by simp
  with Suc.IH [OF a(2)] show ?case by simp
qed

text \<open>
  Claim C1. A step over a non-empty node array that returns has found every next-run time
  at or after the clock. With \<open>t_min\<close> their minimum: if \<open>t_min\<close> is infinite, the clock and
  the state are as before; otherwise the clock is exactly \<open>t_min\<close> and the state is that
  of the second loop run at \<open>t_min\<close>. The new clock is not less than the old one. A node
  that reports a time before the clock fails the assertion. Over successive steps the
  clock never decreases.
\<close>

theorem run_nodes_clock:
  "(nodes \<noteq> [] \<and> run_nodes nodes (now, s) = Inr (now', s') \<longrightarrow>
      (let t_min = Min ((\<lambda>n. next_run_at n s now) ` set nodes)
       in (\<forall>n \<in> set nodes. now \<le> next_run_at n s now)
          \<and> (isinf t_min \<longrightarrow> now' = now \<and> s' = s)
          \<and> (\<not> isinf t_min \<longrightarrow> now' = t_min \<and> run_loop nodes s t_min = Inr s')
          \<and> now \<le> now'))
   \<and> ((\<exists>n \<in> set nodes. next_run_at n s now < now) \<longrightarrow>
        run_nodes nodes (now, s) = Inl AssertionFailed)
   \<and> (run_nodes_iter i nodes st = Inr (now_i, s_i)
        \<and> run_nodes_iter (i + d) nodes st = Inr (now_j, s_j) \<longrightarrow> now_i \<le> now_j)"
proof -
  let ?t = "Min ((\<lambda>n. next_run_at n s now) ` set nodes)"
  have one: "(\<forall>n \<in> set nodes. now \<le> next_run_at n s now)
          \<and> (isinf ?t \<longrightarrow> now' = now \<and> s' = s)
          \<and> (\<not> isinf ?t \<longrightarrow> now' = ?t \<and> run_loop nodes s ?t = Inr s')
          \<and> now \<le> now'"
    if ne: "nodes \<noteq> []" and step: "run_nodes nodes (now, s) = Inr (now', s')"
  proof -
    from ne have min: "Min (insert PInf ((\<lambda>n. next_run_at n s now) ` set nodes)) = ?t"
      by (simp add: Min_insert_PInf)
    from run_nodes_trace_exists [OF step] obtain tr where
      "run_nodes_trace nodes (now, s) = Inr ((now', s'), tr)" by blast
    then show ?thesis
    proof (cases rule: run_nodes_trace_cases)
      case idle
      with min show ?thesis by (simp add: isinf_iff)
    next
      case advance
      from advance(4) have "run_loop nodes s now' = Inr s'"
        by (simp add: run_loop_trace_erase [of nodes s now' 0])
      with advance min run_nodes_clock_step [OF step] show ?thesis
        by (simp add: isinf_iff)
    qed
  qed
  have two: "run_nodes nodes (now, s) = Inl AssertionFailed"
    if "\<exists>n \<in> set nodes. next_run_at n s now < now"
  proof -
    from that have "\<exists>n \<in> set nodes. \<not> now \<le> next_run_at n s now" by (auto simp: not_le)
    from next_now_loop_Inl [OF this] show ?thesis by (simp add: run_nodes_def)
  qed
  have three: "now_i \<le> now_j"
    if "run_nodes_iter i nodes st = Inr (now_i, s_i)"
      "run_nodes_iter (i + d) nodes st = Inr (now_j, s_j)"
  proof -
    from that have "run_nodes_iter d nodes (now_i, s_i) = Inr (now_j, s_j)"
      by (simp add: run_nodes_iter_add)
    from run_nodes_iter_clock [OF this] show ?thesis by simp
  qed
  from one two three show ?thesis unfolding Let_def by blast
qed

text \<open>
  Which nodes a step runs: those that are due when their turn comes.
\<close>

lemma run_nodes_due_nodes_aux:
  assumes "run_nodes_trace nodes (now, s) = Inr ((now', s'), tr)" and "now \<noteq> PInf"
  shows "run_nodes nodes (now, s) = Inr (now', s')
    \<and> sorted_wrt (<) tr
    \<and> (\<forall>i \<in> set tr. i < length nodes)
    \<and> (\<forall>i < length nodes. \<exists>si. run_loop (take i nodes) s now' = Inr si
          \<and> (i \<in> set tr \<longleftrightarrow> next_run_at (nodes ! i) si now' \<le> now'))"
proof -
  have erase: "run_nodes nodes (now, s) = Inr (now', s')"
    using assms(1) by (simp add: run_nodes_trace_erase)
  from assms(1) show ?thesis
  proof (cases rule: run_nodes_trace_cases)
    case idle
    have inf: "next_run_at n s now = PInf" if "n \<in> set nodes" for n
    proof -
      from that have "Min (insert PInf ((\<lambda>n. next_run_at n s now) ` set nodes))
          \<le> next_run_at n s now"
        by (intro Min_le) auto
      with idle(2) show ?thesis by simp
    qed
    have "run_loop (take i nodes) s now = Inr s \<and> \<not> next_run_at (nodes ! i) s now \<le> now"
      if "i < length nodes" for i
    proof -
      have "\<forall>n \<in> set (take i nodes). \<not> next_run_at n s now \<le> now"
        using inf assms(2) by (auto dest: in_set_takeD)
      then have "run_loop (take i nodes) s now = Inr s" by (rule run_loop_not_due)
      moreover from that have "nodes ! i \<in> set nodes" by simp
      with inf assms(2) have "\<not> next_run_at (nodes ! i) s now \<le> now" by simp
      ultimately show ?thesis by simp
    qed
    with idle erase show ?thesis by simp
  next
    case advance
    from run_loop_trace_bounds [OF advance(4)]
    have "sorted_wrt (<) tr" "\<forall>i \<in> set tr. i < length nodes" by simp_all
    moreover have "\<exists>si. run_loop (take i nodes) s now' = Inr si
          \<and> (i \<in> set tr \<longleftrightarrow> next_run_at (nodes ! i) si now' \<le> now')"
      if "i < length nodes" for i
      using run_loop_trace_member [OF advance(4) that] by simp
    ultimately show ?thesis using erase by blast
  qed
qed

text \<open>
  Claim C2. In a step that returns, with \<open>tr\<close> the positions of the nodes whose \<^verbatim>\<open>run\<close>
  was called, in the order of the calls: \<open>tr\<close> is strictly increasing, so no node is run
  twice and the calls follow the order of registration; and node \<open>i\<close> is run if and only
  if its next-run time, asked when its turn comes (in the state \<open>si\<close> left by the nodes
  before it), is at or before the new clock. So all nodes due at that instant are run in
  the step.
\<close>

theorem run_nodes_due_nodes:
  assumes "run_nodes_trace nodes (now, s) = Inr ((now', s'), tr)" and "now \<noteq> PInf"
  shows "run_nodes nodes (now, s) = Inr (now', s')
    \<and> sorted_wrt (<) tr
    \<and> (\<forall>i \<in> set tr. i < length nodes)
    \<and> (\<forall>i < length nodes. \<exists>si. run_loop (take i nodes) s now' = Inr si
          \<and> (i \<in> set tr \<longleftrightarrow> next_run_at (nodes ! i) si now' \<le> now'))"
  using assms by (rule run_nodes_due_nodes_aux)

text \<open>The definitions that evaluate the example simulation.\<close>

lemmas ex_node_defs = ex_nodes_def ex_queue_node_def ex_sink_def ex_source_def
  net_queue_node_def

lemmas ex_queue_defs = ex_queue_def ex_packet_at_def net_packet_create_def
  net_queue_forward_def net_queue_run_def net_queue_next_run_at_def double_of_size_def

text \<open>
  Steps of the example simulation.
\<close>

lemma ex_step1: "run_nodes_trace ex_nodes (Finite 1000, ex_world0) = Inr ((Finite 1000, ex_world1), [2])"
  by (simp add: run_nodes_trace_def ex_node_defs ex_world0_def ex_world1_def ex_queue_defs)

lemma ex_step2:
  "run_nodes_trace ex_nodes (Finite 1000, ex_world1) = Inr ((Finite (1000 + 1 / 10), ex_world2), [0])"
  by (simp add: run_nodes_trace_def ex_node_defs ex_world1_def ex_world2_def ex_queue_defs)

lemma ex_step_idle:
  "run_nodes_trace ex_nodes (Finite 1000, ex_idle) = Inr ((Finite 1000, ex_idle), [])"
  by (simp add: run_nodes_trace_def ex_node_defs ex_idle_def ex_queue_defs)

lemma ex_step_both:
  "run_nodes_trace ex_nodes (Finite 1000, ex_world_both)
     = Inr ((Finite (1000 + 1 / 10), ex_world_both'), [0, 2])"
  by (simp add: run_nodes_trace_def ex_node_defs ex_world_both_def ex_world_both'_def
      ex_queue_defs ex_queue2_def ex_packet_def)

lemma ex_nodelay_step_rev:
  "run_nodes_trace ex_nodes_rev (Finite 1000, ex_nodelay0) = Inr ((Finite 1000, ex_nodelay2), [0, 1])"
  by (simp add: run_nodes_trace_def ex_node_defs ex_nodes_rev_def ex_nodelay0_def ex_nodelay2_def
      ex_queue_nodelay_def ex_queue_defs)

lemma ex_nodelay_step1:
  "run_nodes_trace ex_nodes (Finite 1000, ex_nodelay0) = Inr ((Finite 1000, ex_nodelay1), [2])"
  by (simp add: run_nodes_trace_def ex_node_defs ex_nodelay0_def ex_nodelay1_def
      ex_queue_nodelay_def ex_queue_defs)

lemma ex_nodelay_step2:
  "run_nodes_trace ex_nodes (Finite 1000, ex_nodelay1) = Inr ((Finite 1000, ex_nodelay2), [0])"
  by (simp add: run_nodes_trace_def ex_node_defs ex_nodelay1_def ex_nodelay2_def
      ex_queue_nodelay_def ex_queue_defs)

text \<open>
  Claim C9. The due-check of node \<open>j\<close> asks its next-run time in the state \<open>sj\<close> that the
  earlier nodes of the same step have left. If that time is at or before the new clock
  the node is run in this step, whatever its next-run time was when the minimum was
  computed. If it is not, the node is not run in this step, even when a later node makes
  it due; the next step then leaves the clock where it is, and runs the node if it is
  the first of the array.
\<close>

theorem run_nodes_requery:
  assumes "run_nodes_trace nodes (now, s) = Inr ((now', s'), tr)" and "now \<noteq> PInf"
    and "j < length nodes" and "run_loop (take j nodes) s now' = Inr sj"
  shows "(next_run_at (nodes ! j) sj now' \<le> now' \<longrightarrow> j \<in> set tr)
    \<and> (\<not> next_run_at (nodes ! j) sj now' \<le> now' \<longrightarrow> j \<notin> set tr)
    \<and> (j \<notin> set tr \<and> next_run_at (nodes ! j) s' now' \<le> now'
        \<and> run_nodes_trace nodes (now', s') = Inr ((now'', s''), tr') \<longrightarrow>
          now'' = now' \<and> (j = 0 \<longrightarrow> 0 \<in> set tr'))"
proof -
  from run_nodes_due_nodes_aux [OF assms(1,2)] assms(3,4)
  have iff: "j \<in> set tr \<longleftrightarrow> next_run_at (nodes ! j) sj now' \<le> now'" by auto
  have fin: "now' \<noteq> PInf"
    using assms(1) by (cases rule: run_nodes_trace_cases) (simp_all add: assms(2))
  have later: "now'' = now' \<and> (j = 0 \<longrightarrow> 0 \<in> set tr')"
    if due: "next_run_at (nodes ! j) s' now' \<le> now'"
      and nxt: "run_nodes_trace nodes (now', s') = Inr ((now'', s''), tr')"
  proof -
    let ?S = "(\<lambda>n. next_run_at n s' now') ` set nodes"
    from assms(3) have mem: "nodes ! j \<in> set nodes" by simp
    then have le: "Min (insert PInf ?S) \<le> next_run_at (nodes ! j) s' now'"
      by (intro Min_le) auto
    from nxt show ?thesis
    proof (cases rule: run_nodes_trace_cases)
      case idle
      with le due fin show ?thesis by simp
    next
      case advance
      from advance(1) have ge: "now' \<le> Min (insert PInf ?S)"
        by (simp add: Min_ge_iff)
      from le due have "Min (insert PInf ?S) \<le> now'" by (rule order_trans)
      with ge have "Min (insert PInf ?S) = now'" by (rule order_antisym [rotated])
      with advance(3) have same: "now'' = now'" by (simp only:)
      have "0 \<in> set tr'" if "j = 0"
      proof -
        from that assms(3) have "0 < length nodes" by simp
        from run_loop_trace_member [OF advance(4) this] that due same
        show ?thesis by simp
      qed
      with same show ?thesis by simp
    qed
  qed
  from iff later show ?thesis by blast
qed

lemma ex_stale_assert:
  "next_run_at ex_queue_node ex_world_both (Finite 1001) < Finite 1001"
  by (simp add: ex_node_defs ex_world_both_def ex_queue_defs ex_queue2_def ex_packet_def)

lemma ex_world1_min:
  "Min ((\<lambda>n. next_run_at n ex_world1 (Finite 1000)) ` set ex_nodes) = Finite (1000 + 1 / 10)"
  by (simp add: ex_node_defs ex_world1_def ex_queue_defs)

lemma ex_idle_min:
  "Min ((\<lambda>n. next_run_at n ex_idle (Finite 1000)) ` set ex_nodes) = PInf"
  by (simp add: ex_node_defs ex_idle_def ex_queue_defs)

text \<open>
  A step that advances the clock from 1000 to the queue's due time 1000.1, an idle step, a
  step whose assertion fails on a queue whose head was due before the clock, and two
  steps in a row.
\<close>

theorem run_nodes_clock_witness:
  "run_nodes ex_nodes (Finite 1000, ex_world1) = Inr (Finite (1000 + 1 / 10), ex_world2)
   \<and> Min ((\<lambda>n. next_run_at n ex_world1 (Finite 1000)) ` set ex_nodes) = Finite (1000 + 1 / 10)
   \<and> run_loop ex_nodes ex_world1 (Finite (1000 + 1 / 10)) = Inr ex_world2
   \<and> run_nodes ex_nodes (Finite 1000, ex_idle) = Inr (Finite 1000, ex_idle)
   \<and> Min ((\<lambda>n. next_run_at n ex_idle (Finite 1000)) ` set ex_nodes) = PInf
   \<and> run_nodes ex_nodes (Finite 1001, ex_world_both) = Inl AssertionFailed
   \<and> run_nodes_iter 0 ex_nodes (Finite 1000, ex_world0) = Inr (Finite 1000, ex_world0)
   \<and> run_nodes_iter 2 ex_nodes (Finite 1000, ex_world0) = Inr (Finite (1000 + 1 / 10), ex_world2)
   \<and> Finite 1000 \<le> Finite (1000 + 1 / 10)"
proof -
  have ne: "ex_nodes \<noteq> []"
    by (simp add: ex_nodes_def)
  have step1: "run_nodes ex_nodes (Finite 1000, ex_world0) = Inr (Finite 1000, ex_world1)"
    by (simp add: run_nodes_trace_erase ex_step1)
  have step2: "run_nodes ex_nodes (Finite 1000, ex_world1) = Inr (Finite (1000 + 1 / 10), ex_world2)"
    by (simp add: run_nodes_trace_erase ex_step2)
  have idle: "run_nodes ex_nodes (Finite 1000, ex_idle) = Inr (Finite 1000, ex_idle)"
    by (simp add: run_nodes_trace_erase ex_step_idle)
  have iter0: "run_nodes_iter 0 ex_nodes (Finite 1000, ex_world0) = Inr (Finite 1000, ex_world0)"
    by simp
  have iter2: "run_nodes_iter 2 ex_nodes (Finite 1000, ex_world0)
      = Inr (Finite (1000 + 1 / 10), ex_world2)"
    by (simp add: numeral_2_eq_2 step1 step2)
  then have iter2': "run_nodes_iter (0 + 2) ex_nodes (Finite 1000, ex_world0)
      = Inr (Finite (1000 + 1 / 10), ex_world2)"
    by (simp only: add_0)
  have stale: "\<exists>n \<in> set ex_nodes. next_run_at n ex_world_both (Finite 1001) < Finite 1001"
    using ex_stale_assert by (auto simp: ex_nodes_def)
  note adv = run_nodes_clock [where nodes = ex_nodes and now = "Finite 1000" and s = ex_world1
      and now' = "Finite (1000 + 1 / 10)" and s' = ex_world2 and i = 0 and d = 2
      and st = "(Finite 1000, ex_world0)" and now_i = "Finite 1000" and s_i = ex_world0
      and now_j = "Finite (1000 + 1 / 10)" and s_j = ex_world2]
  from adv ne step2 ex_world1_min
  have "run_loop ex_nodes ex_world1 (Finite (1000 + 1 / 10)) = Inr ex_world2"
    by (simp add: Let_def)
  moreover from adv iter0 iter2' have "Finite 1000 \<le> Finite (1000 + 1 / 10)"
    by blast
  moreover from run_nodes_clock [where nodes = ex_nodes and now = "Finite 1000" and s = ex_idle
      and now' = "Finite 1000" and s' = ex_idle] ne idle ex_idle_min
  have "\<forall>n \<in> set ex_nodes. Finite 1000 \<le> next_run_at n ex_idle (Finite 1000)"
    by (simp add: Let_def)
  moreover from run_nodes_clock [where nodes = ex_nodes and now = "Finite 1001"
      and s = ex_world_both] stale
  have "run_nodes ex_nodes (Finite 1001, ex_world_both) = Inl AssertionFailed"
    by blast
  ultimately show ?thesis
    using step2 ex_world1_min idle ex_idle_min iter0 iter2 by blast
qed

text \<open>
  The queue and the source are both due at 1000.1: both are run in the step, the queue
  first.
\<close>

theorem run_nodes_due_nodes_witness:
  "run_nodes_trace ex_nodes (Finite 1000, ex_world_both)
     = Inr ((Finite (1000 + 1 / 10), ex_world_both'), [0, 2])
   \<and> run_nodes ex_nodes (Finite 1000, ex_world_both) = Inr (Finite (1000 + 1 / 10), ex_world_both')
   \<and> sorted_wrt (<) [0, 2 :: nat]
   \<and> (\<exists>si. run_loop (take 0 ex_nodes) ex_world_both (Finite (1000 + 1 / 10)) = Inr si
         \<and> next_run_at (ex_nodes ! 0) si (Finite (1000 + 1 / 10)) \<le> Finite (1000 + 1 / 10))
   \<and> (\<exists>si. run_loop (take 1 ex_nodes) ex_world_both (Finite (1000 + 1 / 10)) = Inr si
         \<and> \<not> next_run_at (ex_nodes ! 1) si (Finite (1000 + 1 / 10)) \<le> Finite (1000 + 1 / 10))
   \<and> (\<exists>si. run_loop (take 2 ex_nodes) ex_world_both (Finite (1000 + 1 / 10)) = Inr si
         \<and> next_run_at (ex_nodes ! 2) si (Finite (1000 + 1 / 10)) \<le> Finite (1000 + 1 / 10))"
proof -
  let ?t = "Finite (1000 + 1 / 10)"
  have fin: "Finite 1000 \<noteq> PInf" by simp
  have len: "length ex_nodes = 3" by (simp add: ex_nodes_def)
  note inst = run_nodes_due_nodes [OF ex_step_both fin]
  then have turn: "\<exists>si. run_loop (take i ex_nodes) ex_world_both ?t = Inr si
      \<and> (i \<in> set [0, 2] \<longleftrightarrow> next_run_at (ex_nodes ! i) si ?t \<le> ?t)"
    if "i < 3" for i
    using that len by simp
  have "\<exists>si. run_loop (take 0 ex_nodes) ex_world_both ?t = Inr si
      \<and> next_run_at (ex_nodes ! 0) si ?t \<le> ?t"
    using turn [of 0] by simp
  moreover have "\<exists>si. run_loop (take 1 ex_nodes) ex_world_both ?t = Inr si
      \<and> \<not> next_run_at (ex_nodes ! 1) si ?t \<le> ?t"
    using turn [of 1] by simp
  moreover have "\<exists>si. run_loop (take 2 ex_nodes) ex_world_both ?t = Inr si
      \<and> next_run_at (ex_nodes ! 2) si ?t \<le> ?t"
    using turn [of 2] by simp
  ultimately show ?thesis using inst ex_step_both by blast
qed

text \<open>
  With the source registered first, its packet makes the queue due in the same step and
  the queue is run, although it reported no work when the minimum was taken. With the
  queue registered first, the queue is not run in that step and is run in the next one,
  at the same clock.
\<close>

theorem run_nodes_requery_witness:
  "run_nodes_trace ex_nodes_rev (Finite 1000, ex_nodelay0) = Inr ((Finite 1000, ex_nodelay2), [0, 1])
   \<and> Finite 1000 < next_run_at (ex_nodes_rev ! 1) ex_nodelay0 (Finite 1000)
   \<and> run_loop (take 1 ex_nodes_rev) ex_nodelay0 (Finite 1000) = Inr ex_nodelay1
   \<and> next_run_at (ex_nodes_rev ! 1) ex_nodelay1 (Finite 1000) \<le> Finite 1000
   \<and> 1 \<in> set [0, 1 :: nat]
   \<and> run_nodes_trace ex_nodes (Finite 1000, ex_nodelay0) = Inr ((Finite 1000, ex_nodelay1), [2])
   \<and> run_loop (take 0 ex_nodes) ex_nodelay0 (Finite 1000) = Inr ex_nodelay0
   \<and> \<not> next_run_at (ex_nodes ! 0) ex_nodelay0 (Finite 1000) \<le> Finite 1000
   \<and> 0 \<notin> set [2 :: nat]
   \<and> next_run_at (ex_nodes ! 0) ex_nodelay1 (Finite 1000) \<le> Finite 1000
   \<and> run_nodes_trace ex_nodes (Finite 1000, ex_nodelay1) = Inr ((Finite 1000, ex_nodelay2), [0])
   \<and> 0 \<in> set [0 :: nat]"
proof -
  have fin: "Finite 1000 \<noteq> PInf" by simp
  have len: "1 < length ex_nodes_rev" "0 < length ex_nodes"
    by (simp_all add: ex_nodes_rev_def ex_nodes_def)
  have late: "Finite 1000 < next_run_at (ex_nodes_rev ! 1) ex_nodelay0 (Finite 1000)"
    by (simp add: ex_nodes_rev_def ex_node_defs ex_nodelay0_def ex_queue_nodelay_def ex_queue_defs)
  have turn1: "run_loop (take 1 ex_nodes_rev) ex_nodelay0 (Finite 1000) = Inr ex_nodelay1"
    by (simp add: ex_nodes_rev_def ex_node_defs ex_nodelay0_def ex_nodelay1_def
        ex_queue_nodelay_def ex_queue_defs)
  have due1: "next_run_at (ex_nodes_rev ! 1) ex_nodelay1 (Finite 1000) \<le> Finite 1000"
    by (simp add: ex_nodes_rev_def ex_node_defs ex_nodelay1_def ex_queue_nodelay_def ex_queue_defs)
  have turn0: "run_loop (take 0 ex_nodes) ex_nodelay0 (Finite 1000) = Inr ex_nodelay0"
    by simp
  have notdue0: "\<not> next_run_at (ex_nodes ! 0) ex_nodelay0 (Finite 1000) \<le> Finite 1000"
    by (simp add: ex_node_defs ex_nodelay0_def ex_queue_nodelay_def ex_queue_defs)
  have due0: "next_run_at (ex_nodes ! 0) ex_nodelay1 (Finite 1000) \<le> Finite 1000"
    by (simp add: ex_node_defs ex_nodelay1_def ex_queue_nodelay_def ex_queue_defs)
  from run_nodes_requery [OF ex_nodelay_step_rev fin len(1) turn1] due1
  have "1 \<in> set [0, 1 :: nat]" by blast
  moreover from run_nodes_requery [OF ex_nodelay_step1 fin len(2) turn0,
      where now'' = "Finite 1000" and s'' = ex_nodelay2 and tr' = "[0]"] notdue0
  have "0 \<notin> set [2 :: nat]" by blast
  moreover from run_nodes_requery [OF ex_nodelay_step1 fin len(2) turn0,
      where now'' = "Finite 1000" and s'' = ex_nodelay2 and tr' = "[0]"] due0 ex_nodelay_step2
  have "0 \<in> set [0 :: nat]" by simp
  ultimately show ?thesis
    using ex_nodelay_step_rev late turn1 due1 ex_nodelay_step1 turn0 notdue0 due0 ex_nodelay_step2
    by blast
qed

section \<open>The queue is never late\<close>

text \<open>
  With a non-negative delay an enqueue at clock \<open>t\<close> keeps the queue's next-run time at
  or after \<open>t\<close>: a packet entering an empty queue is due at \<open>t\<close> plus the delay or later,
  and any other enqueue leaves the head as it is.
\<close>

lemma forward_not_late:
  assumes "Finite 0 \<le> prop_delay q" "t \<le> net_queue_next_run_at q"
  shows "t \<le> net_queue_next_run_at (fst (net_queue_forward q p t))"
proof (cases "size_q q + size_p p > capacity q")
  case True
  with assms show ?thesis by (simp add: net_queue_forward_def)
next
  case False
  show ?thesis
  proof (cases "queue_first q")
    case Nil
    from assms(1) have "t \<le> dadd t (prop_delay q)" by (rule dadd_nonneg)
    then have "t \<le> max (dadd t (prop_delay q)) (next_emit_at q)"
      by (rule max.coboundedI1)
    with Nil False show ?thesis
      by (simp add: net_queue_forward_def next_run_at_max)
  next
    case (Cons a rest)
    with False assms(2) show ?thesis
      by (simp add: net_queue_forward_def next_run_at_max)
  qed
qed

text \<open>
  With a positive bandwidth a run at clock \<open>t\<close> leaves the next-run time at or after \<open>t\<close>:
  the cursor becomes \<open>t\<close> plus a non-negative time.
\<close>

lemma run_not_late:
  assumes "Finite 0 < bytes_per_sec q" "net_queue_run q t = Inr (q', out, ev)"
  shows "t \<le> net_queue_next_run_at q'"
  using run_cases [OF assms(2)]
proof (elim disjE conjE exE)
  assume "q' = q" "t < net_queue_next_run_at q"
  then show ?thesis by simp
next
  fix p rest d
  assume e: "ddiv (double_of_size (size_p p)) (bytes_per_sec q) = Some d"
    "q' = q\<lparr>queue_first := rest, size_q := size_q q - size_p p, next_emit_at := dadd t d\<rparr>"
  from ddiv_size_nonneg [OF assms(1), of "size_p p"] e(1) have "Finite 0 \<le> d" by simp
  then have "t \<le> dadd t d" by (rule dadd_nonneg)
  with e(2) show ?thesis
    by (cases rest) (simp_all add: next_run_at_max max.coboundedI2)
qed

lemma run_keeps_config:
  "net_queue_run q t = Inr (q', out, ev) \<Longrightarrow>
   prop_delay q' = prop_delay q \<and> bytes_per_sec q' = bytes_per_sec q \<and> capacity q' = capacity q"
  by (drule run_cases) auto

lemma queue_calls_not_late:
  assumes "queue_calls t q q'" "Finite 0 \<le> prop_delay q" "Finite 0 < bytes_per_sec q"
    "t \<le> net_queue_next_run_at q"
  shows "t \<le> net_queue_next_run_at q'
    \<and> prop_delay q' = prop_delay q \<and> bytes_per_sec q' = bytes_per_sec q"
  using assms
proof (induction rule: queue_calls.induct)
  case none
  then show ?case by simp
next
  case (forward queue1 packet)
  then show ?case by (simp add: forward_not_late forward_keeps_config)
next
  case (run queue1 queue2 out ev)
  then have "Finite 0 < bytes_per_sec queue1" by simp
  from run_not_late [OF this run.hyps(2)] run_keeps_config [OF run.hyps(2)] run
  show ?case by simp
qed

lemma queue_calls_trans:
  "queue_calls t q1 q2 \<Longrightarrow> queue_calls t q q1 \<Longrightarrow> queue_calls t q q2"
  by (induction rule: queue_calls.induct) (auto intro: queue_calls.intros)

lemma run_loop_queue_calls:
  assumes "\<forall>n \<in> set nodes. \<forall>s t s'. run n s t = Inr s' \<longrightarrow> queue_calls t (get s) (get s')"
    and "run_loop nodes s t = Inr s'"
  shows "queue_calls t (get s) (get s')"
  using assms
proof (induction nodes arbitrary: s)
  case Nil
  then show ?case by (simp add: queue_calls.none)
next
  case (Cons n nodes)
  show ?case
  proof (cases "next_run_at n s t \<le> t")
    case True
    with Cons.prems(2) obtain s1 where s1: "run n s t = Inr s1" "run_loop nodes s1 t = Inr s'"
      by (auto split: sum.splits)
    from Cons.prems(1) s1(1) have "queue_calls t (get s) (get s1)" by simp
    moreover from Cons.IH [OF _ s1(2)] Cons.prems(1) have "queue_calls t (get s1) (get s')"
      by simp
    ultimately show ?thesis by (rule queue_calls_trans [rotated])
  next
    case False
    with Cons.prems(2) have "run_loop nodes s t = Inr s'" by simp
    from Cons.IH [OF _ this] Cons.prems(1) show ?thesis by simp
  qed
qed

lemma run_nodes_queue_not_late:
  assumes calls: "\<forall>n \<in> set nodes. \<forall>s t s'. run n s t = Inr s' \<longrightarrow>
        queue_calls t (get s) (get s')"
    and reg: "qn \<in> set nodes" "next_run_at qn = (\<lambda>s t. net_queue_next_run_at (get s))"
    and cfg: "Finite 0 \<le> prop_delay (get s)" "Finite 0 < bytes_per_sec (get s)"
    and step: "run_nodes nodes (now, s) = Inr (now', s')"
  shows "now \<le> net_queue_next_run_at (get s)
    \<and> now' \<le> net_queue_next_run_at (get s')
    \<and> prop_delay (get s') = prop_delay (get s)
    \<and> bytes_per_sec (get s') = bytes_per_sec (get s)"
proof -
  from run_nodes_trace_exists [OF step] obtain tr where
    "run_nodes_trace nodes (now, s) = Inr ((now', s'), tr)" by blast
  then show ?thesis
  proof (cases rule: run_nodes_trace_cases)
    case idle
    from idle(1) reg have "now \<le> net_queue_next_run_at (get s)" by auto
    with idle show ?thesis by simp
  next
    case advance
    from advance(1) reg have a: "now \<le> net_queue_next_run_at (get s)" by auto
    from reg(1) have "Min (insert PInf ((\<lambda>n. next_run_at n s now) ` set nodes))
        \<le> next_run_at qn s now"
      by (intro Min_le) auto
    with advance(3) reg(2) have b: "now' \<le> net_queue_next_run_at (get s)" by simp
    from advance(4) have "run_loop nodes s now' = Inr s'"
      by (simp add: run_loop_trace_erase [of nodes s now' 0])
    from run_loop_queue_calls [OF calls this] have "queue_calls now' (get s) (get s')" .
    from queue_calls_not_late [OF this cfg b] a show ?thesis by simp
  qed
qed

text \<open>
  The same holds whenever the second loop asks the queue, after any number of the nodes
  of the step have had their turn.
\<close>

lemma run_nodes_queue_not_late_turn:
  assumes calls: "\<forall>n \<in> set nodes. \<forall>s t s'. run n s t = Inr s' \<longrightarrow>
        queue_calls t (get s) (get s')"
    and reg: "qn \<in> set nodes" "next_run_at qn = (\<lambda>s t. net_queue_next_run_at (get s))"
    and cfg: "Finite 0 \<le> prop_delay (get s)" "Finite 0 < bytes_per_sec (get s)"
    and step: "run_nodes nodes (now, s) = Inr (now', s')"
    and turn: "run_loop (take j nodes) s now' = Inr sj"
  shows "now' \<le> net_queue_next_run_at (get sj)"
proof -
  from run_nodes_trace_exists [OF step] obtain tr where
    "run_nodes_trace nodes (now, s) = Inr ((now', s'), tr)" by blast
  then have b: "now' \<le> net_queue_next_run_at (get s)"
  proof (cases rule: run_nodes_trace_cases)
    case idle
    from idle(1) reg have "now \<le> net_queue_next_run_at (get s)" by auto
    with idle show ?thesis by simp
  next
    case advance
    from reg(1) have "Min (insert PInf ((\<lambda>n. next_run_at n s now) ` set nodes))
        \<le> next_run_at qn s now"
      by (intro Min_le) auto
    with advance(3) reg(2) show ?thesis by simp
  qed
  from calls have "\<forall>n \<in> set (take j nodes). \<forall>s t s'. run n s t = Inr s' \<longrightarrow>
        queue_calls t (get s) (get s')"
    by (auto dest: in_set_takeD)
  from run_loop_queue_calls [OF this turn] have "queue_calls now' (get s) (get sj)" .
  from queue_calls_not_late [OF this cfg b] show ?thesis by simp
qed

text \<open>
  Claim C10. Let the queue be registered with the scheduler, let its propagation delay be
  non-negative and its bandwidth positive, and let every node's \<^verbatim>\<open>run\<close> touch the queue
  only by calls of \<^verbatim>\<open>net_queue_forward\<close> and \<^verbatim>\<open>net_queue_run\<close> at the current clock. Then
  after a step that returns, and at every turn of its second loop, the queue's next-run
  time is not less than the new clock; and from a state where it is not less than the clock (an empty queue, for one) it is
  not less than the clock after any number of steps. So the assertion of the next step
  holds for the queue.
\<close>

theorem net_queue_never_late:
  assumes "\<forall>n \<in> set nodes. \<forall>s t s'. run n s t = Inr s' \<longrightarrow> queue_calls t (get s) (get s')"
    and "qn \<in> set nodes" and "next_run_at qn = (\<lambda>s t. net_queue_next_run_at (get s))"
    and "Finite 0 \<le> prop_delay (get s)" and "Finite 0 < bytes_per_sec (get s)"
  shows "(run_nodes nodes (now, s) = Inr (now', s') \<longrightarrow>
            now' \<le> next_run_at qn s' now')
    \<and> (run_nodes nodes (now, s) = Inr (now', s') \<and> run_loop (take j nodes) s now' = Inr sj \<longrightarrow>
            now' \<le> next_run_at qn sj now')
    \<and> (now \<le> next_run_at qn s now \<and> run_nodes_iter k nodes (now, s) = Inr (now_k, s_k) \<longrightarrow>
            now_k \<le> next_run_at qn s_k now_k)"
proof -
  have turn: "now' \<le> next_run_at qn sj now'"
    if "run_nodes nodes (now, s) = Inr (now', s')" "run_loop (take j nodes) s now' = Inr sj"
    using run_nodes_queue_not_late_turn [OF assms that] assms(3) by simp
  have one: "now' \<le> next_run_at qn s' now'" if "run_nodes nodes (now, s) = Inr (now', s')"
    using run_nodes_queue_not_late [OF assms that] assms(3) by simp
  have many: "now_k \<le> net_queue_next_run_at (get s_k)
      \<and> Finite 0 \<le> prop_delay (get s_k) \<and> Finite 0 < bytes_per_sec (get s_k)"
    if "run_nodes_iter k nodes (now, s) = Inr (now_k, s_k)"
      "now \<le> net_queue_next_run_at (get s)"
      "Finite 0 \<le> prop_delay (get s)" "Finite 0 < bytes_per_sec (get s)"
    for k now s
    using that
  proof (induction k arbitrary: now s)
    case 0
    then show ?case by simp
  next
    case (Suc k)
    from Suc.prems(1) obtain now1 s1 where
      a: "run_nodes nodes (now, s) = Inr (now1, s1)"
         "run_nodes_iter k nodes (now1, s1) = Inr (now_k, s_k)"
      by (auto split: sum.splits)
    from run_nodes_queue_not_late [OF assms(1,2,3) Suc.prems(3,4) a(1)] Suc.prems(3,4)
    have "now1 \<le> net_queue_next_run_at (get s1)"
      "Finite 0 \<le> prop_delay (get s1)" "Finite 0 < bytes_per_sec (get s1)"
      by simp_all
    from Suc.IH [OF a(2) this] show ?case .
  qed
  from one turn many [of k now s] assms(3,4,5) show ?thesis by simp
qed

text \<open>
  The condition on the nodes holds for the queue's own node, whenever the node downstream
  leaves the queue alone, and for any node whose \<^verbatim>\<open>run\<close> only forwards packets to the
  queue.
\<close>

lemma net_queue_node_run_calls:
  assumes lens: "\<And>q s. get (put q s) = q"
    and away: "\<And>s p t s'. next_node_forward s p t = Inr s' \<Longrightarrow> get s' = get s"
    and r: "run (net_queue_node get put next_node_forward) s t = Inr s'"
  shows "queue_calls t (get s) (get s')"
proof -
  from r obtain q' out ev where q: "net_queue_run (get s) t = Inr (q', out, ev)"
    by (auto simp: net_queue_node_def split: sum.splits)
  have "get s' = q'"
  proof (cases out)
    case None
    with r q have "s' = put q' s" by (simp add: net_queue_node_def)
    with lens show ?thesis by simp
  next
    case (Some p)
    with r q have "next_node_forward (put q' s) p t = Inr s'"
      by (simp add: net_queue_node_def)
    from away [OF this] lens show ?thesis by simp
  qed
  with queue_calls.run [OF queue_calls.none q] show ?thesis by simp
qed

lemma net_queue_node_forward_calls:
  assumes lens: "\<And>q s. get (put q s) = q"
    and f: "forward' (net_queue_node get put next_node_forward) s p t = Inr s'"
  shows "queue_calls t (get s) (get s')"
proof -
  from f have "s' = put (fst (net_queue_forward (get s) p t)) s"
    by (simp add: net_queue_node_def)
  with lens have "get s' = fst (net_queue_forward (get s) p t)" by simp
  with queue_calls.forward [OF queue_calls.none] show ?thesis by simp
qed

text \<open>
  The nodes of the example touch the bottleneck only by such calls.
\<close>

lemma ex_nodes_queue_calls:
  "\<forall>n \<in> set ex_nodes. \<forall>s t s'. run n s t = Inr s' \<longrightarrow>
     queue_calls t (ex_bottleneck s) (ex_bottleneck s')"
proof -
  have q: "queue_calls t (ex_bottleneck s) (ex_bottleneck s')"
    if "run ex_queue_node s t = Inr s'" for s t s'
  proof -
    from that obtain q' out ev where r: "net_queue_run (ex_bottleneck s) t = Inr (q', out, ev)"
      by (auto simp: ex_queue_node_def net_queue_node_def split: sum.splits)
    with that have "ex_bottleneck s' = q'"
      by (cases out) (auto simp: ex_queue_node_def net_queue_node_def ex_sink_def)
    with queue_calls.run [OF queue_calls.none r] show ?thesis by simp
  qed
  have k: "queue_calls t (ex_bottleneck s) (ex_bottleneck s')"
    if "run ex_sink s t = Inr s'" for s t s'
    using that by (auto simp: ex_sink_def intro: queue_calls.none)
  have c: "queue_calls t (ex_bottleneck s) (ex_bottleneck s')"
    if "run ex_source s t = Inr s'" for s t s'
  proof (cases "ex_pending s")
    case Nil
    with that show ?thesis by (auto simp: ex_source_def intro: queue_calls.none)
  next
    case (Cons a rest)
    obtain t0 n where "a = (t0, n)" by (cases a)
    with that Cons have "ex_bottleneck s' = fst (net_queue_forward (ex_bottleneck s)
        (net_packet_create ex_addr ex_addr (replicate n 0x41) t) t)"
      by (auto simp: ex_source_def ex_queue_node_def net_queue_node_def)
    with queue_calls.forward [OF queue_calls.none] show ?thesis by simp
  qed
  from q k c show ?thesis by (simp add: ex_nodes_def)
qed

text \<open>
  The step of the example in which the queue hands a packet over and receives another:
  afterwards it is due at 1000.14, after the clock 1000.1.
\<close>

theorem net_queue_never_late_witness:
  "run_nodes ex_nodes (Finite 1000, ex_world_both) = Inr (Finite (1000 + 1 / 10), ex_world_both')
   \<and> Finite (1000 + 1 / 10) \<le> next_run_at ex_queue_node ex_world_both' (Finite (1000 + 1 / 10))
   \<and> next_run_at ex_queue_node ex_world_both' (Finite (1000 + 1 / 10))
       = Finite (1000 + 1 / 10 + 40000 / 1000000)
   \<and> run_loop (take 2 ex_nodes) ex_world_both (Finite (1000 + 1 / 10)) = Inr ex_world_mid
   \<and> Finite (1000 + 1 / 10) \<le> next_run_at ex_queue_node ex_world_mid (Finite (1000 + 1 / 10))
   \<and> Finite 1000 \<le> next_run_at ex_queue_node ex_world_both (Finite 1000)
   \<and> run_nodes_iter 1 ex_nodes (Finite 1000, ex_world_both)
       = Inr (Finite (1000 + 1 / 10), ex_world_both')"
proof -
  have step: "run_nodes ex_nodes (Finite 1000, ex_world_both)
      = Inr (Finite (1000 + 1 / 10), ex_world_both')"
    by (simp add: run_nodes_trace_erase ex_step_both)
  then have iter: "run_nodes_iter 1 ex_nodes (Finite 1000, ex_world_both)
      = Inr (Finite (1000 + 1 / 10), ex_world_both')"
    by simp
  have reg: "ex_queue_node \<in> set ex_nodes"
    "next_run_at ex_queue_node = (\<lambda>s t. net_queue_next_run_at (ex_bottleneck s))"
    by (simp_all add: ex_nodes_def ex_queue_node_def net_queue_node_def)
  have cfg: "Finite 0 \<le> prop_delay (ex_bottleneck ex_world_both)"
    "Finite 0 < bytes_per_sec (ex_bottleneck ex_world_both)"
    by (simp_all add: ex_world_both_def ex_queue2_def ex_queue_def)
  have start: "Finite 1000 \<le> next_run_at ex_queue_node ex_world_both (Finite 1000)"
    by (simp add: ex_node_defs ex_world_both_def ex_queue_defs ex_queue2_def ex_packet_def)
  have nxt: "next_run_at ex_queue_node ex_world_both' (Finite (1000 + 1 / 10))
       = Finite (1000 + 1 / 10 + 40000 / 1000000)"
    by (simp add: ex_node_defs ex_world_both'_def ex_queue_defs ex_packet_def)
  have mid: "run_loop (take 2 ex_nodes) ex_world_both (Finite (1000 + 1 / 10)) = Inr ex_world_mid"
    by (simp add: ex_node_defs ex_world_both_def ex_world_mid_def ex_queue_defs ex_queue2_def
        ex_packet_def)
  note inst = net_queue_never_late [OF ex_nodes_queue_calls reg cfg,
      where now = "Finite 1000" and now' = "Finite (1000 + 1 / 10)" and s' = ex_world_both'
      and k = 1 and now_k = "Finite (1000 + 1 / 10)" and s_k = ex_world_both'
      and j = 2 and sj = ex_world_mid]
  from inst step
  have "Finite (1000 + 1 / 10) \<le> next_run_at ex_queue_node ex_world_both' (Finite (1000 + 1 / 10))"
    by blast
  moreover from inst start iter
  have "Finite (1000 + 1 / 10) \<le> next_run_at ex_queue_node ex_world_both' (Finite (1000 + 1 / 10))"
    by blast
  moreover from inst step mid
  have "Finite (1000 + 1 / 10) \<le> next_run_at ex_queue_node ex_world_mid (Finite (1000 + 1 / 10))"
    by blast
  ultimately show ?thesis using step nxt start iter mid by blast
qed

end
